theory Spec2Isabelle
  imports Main "HOL-Library.Sublist"
begin

section \<open>JavaScript strings\<close>

text \<open>
  A JavaScript string is a sequence of UTF-16 code units; a unit is modelled as a natural
  number. The scripts use \<^verbatim>\<open>indexOf\<close>, \<^verbatim>\<open>includes\<close>, \<^verbatim>\<open>substring\<close>, \<^verbatim>\<open>trim\<close>,
  \<^verbatim>\<open>split\<close>, \<^verbatim>\<open>join\<close>, \<^verbatim>\<open>toLowerCase\<close> and two regular expressions; each is written
  out below with the behaviour ECMAScript gives it.
\<close>

type_synonym jstring = "nat list"

definition js :: "string \<Rightarrow> jstring" where
  "js s = map of_char s"

fun indexOfFrom :: "jstring \<Rightarrow> nat \<Rightarrow> jstring \<Rightarrow> int" where
  "indexOfFrom pat i [] = (if pat = [] then int i else - 1)"
| "indexOfFrom pat i (c # cs) =
     (if take (length pat) (c # cs) = pat then int i else indexOfFrom pat (Suc i) cs)"

definition indexOf :: "jstring \<Rightarrow> jstring \<Rightarrow> int" where
  "indexOf s pat = indexOfFrom pat 0 s"

definition includes_str :: "jstring \<Rightarrow> jstring \<Rightarrow> bool" where
  "includes_str s pat = (indexOf s pat \<noteq> - 1)"

text \<open>\<^verbatim>\<open>s.substring(a, b)\<close>: both indices are clamped to the string and swapped when out of order.\<close>

definition substring :: "jstring \<Rightarrow> int \<Rightarrow> int \<Rightarrow> jstring" where
  "substring s a b =
     (let len = int (length s);
          a' = min (max a 0) len;
          b' = min (max b 0) len;
          lo = min a' b';
          hi = max a' b'
      in take (nat (hi - lo)) (drop (nat lo) s))"

definition substringFrom :: "jstring \<Rightarrow> int \<Rightarrow> jstring" where
  "substringFrom s a = substring s a (int (length s))"

text \<open>The units that \<^verbatim>\<open>trim\<close> removes and that \<^verbatim>\<open>\s\<close> matches: WhiteSpace and LineTerminator.\<close>

definition isLineTerminator :: "nat \<Rightarrow> bool" where
  "isLineTerminator c = (c = 0x0A \<or> c = 0x0D \<or> c = 0x2028 \<or> c = 0x2029)"

definition isWhiteSpace :: "nat \<Rightarrow> bool" where
  "isWhiteSpace c =
     (c = 0x09 \<or> c = 0x0B \<or> c = 0x0C \<or> c = 0x20 \<or> c = 0xA0 \<or> c = 0x1680
      \<or> (0x2000 \<le> c \<and> c \<le> 0x200A) \<or> c = 0x202F \<or> c = 0x205F \<or> c = 0x3000
      \<or> c = 0xFEFF \<or> isLineTerminator c)"

definition trim :: "jstring \<Rightarrow> jstring" where
  "trim s = rev (dropWhile isWhiteSpace (rev (dropWhile isWhiteSpace s)))"

text \<open>\<^verbatim>\<open>s.split(sep)\<close> for a separator of one unit; the empty string splits into one empty piece.\<close>

fun split_str :: "nat \<Rightarrow> jstring \<Rightarrow> jstring list" where
  "split_str sep [] = [[]]"
| "split_str sep (c # cs) =
     (if c = sep then [] # split_str sep cs
      else (case split_str sep cs of [] \<Rightarrow> [[c]] | x # xs \<Rightarrow> (c # x) # xs))"

fun join_str :: "jstring \<Rightarrow> jstring list \<Rightarrow> jstring" where
  "join_str sep [] = []"
| "join_str sep [x] = x"
| "join_str sep (x # y # ys) = x @ sep @ join_str sep (y # ys)"

text \<open>
  \<^verbatim>\<open>toLowerCase\<close> applies the Unicode case mapping of the runtime, a table that is no part of
  the repository. The functions that call it take the mapping as their first argument, under
  its own name, and every general statement below holds for any mapping. For running the
  scripts on titles of Basic Latin letters, on which every version of the mapping maps
  \<^verbatim>\<open>A\<close> to \<^verbatim>\<open>Z\<close> to \<^verbatim>\<open>a\<close> to \<^verbatim>\<open>z\<close> and nothing else, there is \<open>toLowerCase_ascii\<close>.
\<close>

definition toLowerCase_ascii :: "jstring \<Rightarrow> jstring" where
  "toLowerCase_ascii s = map (\<lambda>c. if 0x41 \<le> c \<and> c \<le> 0x5A then c + 0x20 else c) s"

text \<open>Template literals print a number in decimal.\<close>

fun decimal :: "nat \<Rightarrow> jstring" where
  "decimal n = (if n < 10 then [0x30 + n] else decimal (n div 10) @ [0x30 + n mod 10])"

declare decimal.simps [simp del]

subsection \<open>The list-item expressions\<close>

text \<open>
  \<^verbatim>\<open>/^(-|\*|\d+\.)\s+.+/\<close> selects the draft lines and \<^verbatim>\<open>/^(-|\*|\d+\.)\s+/\<close> is replaced by
  the empty string to obtain a title. \<open>listMarker\<close> matches the shared group
  \<^verbatim>\<open>^(-|\*|\d+\.)\<close> and returns the rest of the line.
\<close>

definition isDigit :: "nat \<Rightarrow> bool" where
  "isDigit c = (0x30 \<le> c \<and> c \<le> 0x39)"

definition listMarker :: "jstring \<Rightarrow> jstring option" where
  "listMarker s =
     (case s of
        [] \<Rightarrow> None
      | c # cs \<Rightarrow>
          if c = 0x2D \<or> c = 0x2A then Some cs
          else (let r = dropWhile isDigit s
                in if takeWhile isDigit s \<noteq> [] \<and> r \<noteq> [] \<and> hd r = 0x2E then Some (tl r)
                   else None))"

text \<open>
  After the marker, \<^verbatim>\<open>\s+.+\<close> needs a white-space unit and, after some white space, one
  unit that is not a line terminator (\<^verbatim>\<open>.\<close> matches white space too).
\<close>

definition matchesDraftLine :: "jstring \<Rightarrow> bool" where
  "matchesDraftLine line =
     (case listMarker line of
        None \<Rightarrow> False
      | Some r \<Rightarrow>
          takeWhile isWhiteSpace r \<noteq> []
          \<and> (dropWhile isWhiteSpace r \<noteq> []
             \<or> list_ex (\<lambda>c. \<not> isLineTerminator c) (tl (takeWhile isWhiteSpace r))))"

definition removeListMarker :: "jstring \<Rightarrow> jstring" where
  "removeListMarker line =
     (case listMarker line of
        None \<Rightarrow> line
      | Some r \<Rightarrow> if takeWhile isWhiteSpace r \<noteq> [] then dropWhile isWhiteSpace r else line)"


section \<open>The issue tracker\<close>

text \<open>
  The scripts keep no state of their own: everything lives in the tracker they reach through
  the REST client. The tracker is modelled as a store of one repository's issues (newest
  first, the order in which the listing returns them), comments (oldest first) and
  reactions. A listing returns every entry that fits its filter.
\<close>

record issue =
  number :: nat
  title :: jstring
  body :: "jstring option"
  html_url :: jstring
  labels :: "jstring list"
  state_open :: bool
  pull_request :: bool

record comment =
  comment_id :: nat
  comment_issue :: nat
  comment_body :: jstring
  comment_html_url :: jstring
  user_type :: jstring

record reaction =
  reaction_comment :: nat
  content :: jstring

record tracker =
  issues :: "issue list"
  comments :: "comment list"
  reactions :: "reaction list"
  actor_type :: jstring

datatype error =
    Error string
  | RequestError nat
  | Undefined

definition fresh_number :: "tracker \<Rightarrow> nat" where
  "fresh_number t = Suc (fold max (map number (issues t)) 0)"

definition fresh_comment_id :: "tracker \<Rightarrow> nat" where
  "fresh_comment_id t = Suc (fold max (map comment_id (comments t)) 0)"

definition issue_url :: "nat \<Rightarrow> jstring" where
  "issue_url n = js ''/issues/'' @ decimal n"

definition comment_url :: "nat \<Rightarrow> nat \<Rightarrow> jstring" where
  "comment_url n c = issue_url n @ js ''#issuecomment-'' @ decimal c"

text \<open>
  The endpoints the scripts call. Each either rejects the request and leaves the tracker
  as it is, or answers and returns the tracker after the call. A comment is authored by the
  account the token belongs to (\<open>actor_type\<close>: \<^verbatim>\<open>Bot\<close> under the workflow's own token).
\<close>

definition issues_listForRepo :: "jstring option \<Rightarrow> tracker \<Rightarrow> error + issue list \<times> tracker" where
  "issues_listForRepo label t =
     Inr (filter (\<lambda>i. state_open i \<and> (case label of None \<Rightarrow> True | Some l \<Rightarrow> l \<in> set (labels i)))
            (issues t), t)"

definition pulls_list :: "tracker \<Rightarrow> error + issue list \<times> tracker" where
  "pulls_list t = Inr (filter (\<lambda>i. state_open i \<and> pull_request i) (issues t), t)"

definition opened_issue :: "tracker \<Rightarrow> jstring \<Rightarrow> jstring \<Rightarrow> jstring list \<Rightarrow> issue" where
  "opened_issue t ttl bdy lbls =
     \<lparr>number = fresh_number t, title = ttl, body = Some bdy, html_url = issue_url (fresh_number t),
      labels = lbls, state_open = True, pull_request = False\<rparr>"

definition issues_create :: "jstring \<Rightarrow> jstring \<Rightarrow> jstring list \<Rightarrow> tracker \<Rightarrow> error + issue \<times> tracker" where
  "issues_create ttl bdy lbls t =
     Inr (opened_issue t ttl bdy lbls, t\<lparr>issues := opened_issue t ttl bdy lbls # issues t\<rparr>)"

definition issues_get :: "nat \<Rightarrow> tracker \<Rightarrow> error + issue \<times> tracker" where
  "issues_get n t =
     (case find (\<lambda>i. number i = n) (issues t) of
        None \<Rightarrow> Inl (RequestError 404)
      | Some i \<Rightarrow> Inr (i, t))"

definition issues_listComments :: "nat \<Rightarrow> tracker \<Rightarrow> error + comment list \<times> tracker" where
  "issues_listComments n t = Inr (filter (\<lambda>c. comment_issue c = n) (comments t), t)"

definition posted_comment :: "tracker \<Rightarrow> nat \<Rightarrow> jstring \<Rightarrow> comment" where
  "posted_comment t n bdy =
     \<lparr>comment_id = fresh_comment_id t, comment_issue = n, comment_body = bdy,
      comment_html_url = comment_url n (fresh_comment_id t), user_type = actor_type t\<rparr>"

definition issues_createComment :: "nat \<Rightarrow> jstring \<Rightarrow> tracker \<Rightarrow> error + comment \<times> tracker" where
  "issues_createComment n bdy t =
     (if \<not> list_ex (\<lambda>i. number i = n) (issues t) then Inl (RequestError 404)
      else Inr (posted_comment t n bdy, t\<lparr>comments := comments t @ [posted_comment t n bdy]\<rparr>))"

definition reactions_listForIssueComment :: "nat \<Rightarrow> tracker \<Rightarrow> error + reaction list \<times> tracker" where
  "reactions_listForIssueComment k t = Inr (filter (\<lambda>r. reaction_comment r = k) (reactions t), t)"

section \<open>The environment of a run\<close>

text \<open>
  \<open>outcomes\<close> scripts the requests to come: \<open>True\<close> means that the next request is
  rejected by a fault (network, rate limit, server) and has no effect; where the script is
  exhausted the request reaches the tracker. \<open>attempts\<close> is the log that \<^verbatim>\<open>retry\<close>
  writes, one operation name per attempt. \<open>clock\<close> is the ISO time stamp of the run,
  \<open>generated\<close> the answer of the language model, \<open>outputs\<close> what \<^verbatim>\<open>setOutput\<close> reported.
\<close>

datatype generation = EmptyContent | InvalidJson | MissingKeys | Generated jstring jstring

record stats =
  processed :: nat
  created :: nat
  existed :: nat

datatype outval = Str jstring | Json stats | Message error

record world =
  tracker :: tracker
  outcomes :: "bool list"
  attempts :: "string list"
  clock :: jstring
  generated :: generation
  outputs :: "(string \<times> outval) list"

record config =
  TARGET_REPO_OWNER :: "jstring option"
  TARGET_REPO_NAME :: "jstring option"
  GITHUB_TOKEN :: "jstring option"
  OPENAI_API_KEY :: "jstring option"
  CI :: bool

text \<open>An environment variable that is unset or empty is falsy.\<close>

definition truthy :: "jstring option \<Rightarrow> bool" where
  "truthy v = (case v of None \<Rightarrow> False | Some s \<Rightarrow> s \<noteq> [])"

definition request :: "(tracker \<Rightarrow> error + 'a \<times> tracker) \<Rightarrow> world \<Rightarrow> (error + 'a) \<times> world" where
  "request call w =
     (case outcomes w of
        True # rest \<Rightarrow> (Inl (RequestError 500), w\<lparr>outcomes := rest\<rparr>)
      | _ \<Rightarrow>
          (case call (tracker w) of
             Inl e \<Rightarrow> (Inl e, w\<lparr>outcomes := tl (outcomes w)\<rparr>)
           | Inr (v, t) \<Rightarrow> (Inr v, w\<lparr>tracker := t, outcomes := tl (outcomes w)\<rparr>)))"

text \<open>A script is calm when it never rejects three requests in a row: then no retry of three attempts is exhausted.\<close>

fun calm :: "bool list \<Rightarrow> bool" where
  "calm (True # True # True # bs) = False"
| "calm (b # bs) = calm bs"
| "calm [] = True"

text \<open>
  A retry of three attempts whose request the tracker answers is exhausted exactly when the
  script starts with three rejections. It uses up the leading rejections, two at most, and
  one more outcome.
\<close>

definition exhausted :: "bool list \<Rightarrow> bool" where
  "exhausted os = (take 3 os = [True, True, True])"

definition after_retry :: "bool list \<Rightarrow> bool list" where
  "after_retry os = drop (Suc (length (takeWhile (\<lambda>b. b) (take 2 os)))) os"

subsection \<open>utils.js\<close>

definition initializeOctokit :: "config \<Rightarrow> error + unit" where
  "initializeOctokit cfg =
     (if \<not> truthy (GITHUB_TOKEN cfg)
      then Inl (Error ''GITHUB_TOKEN is not set in environment variables.'')
      else Inr ())"

definition initializeOpenAI :: "config \<Rightarrow> error + unit" where
  "initializeOpenAI cfg =
     (if \<not> truthy (OPENAI_API_KEY cfg)
      then Inl (Error ''OPENAI_API_KEY is not set in environment variables.'')
      else Inr ())"

text \<open>
  \<^verbatim>\<open>retry(fn, retries, delay, operationName)\<close>: the loop \<^verbatim>\<open>for (i = 0; i < retries; i++)\<close>
  as recursion on the attempts left; each attempt is logged, the first answer is returned,
  and after the last rejection the last error is thrown. The delay only passes time.
\<close>

fun retry_loop ::
  "(world \<Rightarrow> (error + 'a) \<times> world) \<Rightarrow> nat \<Rightarrow> string \<Rightarrow> error \<Rightarrow> world \<Rightarrow> (error + 'a) \<times> world" where
  "retry_loop fn 0 operationName lastError w = (Inl lastError, w)"
| "retry_loop fn (Suc k) operationName lastError w =
     (case fn (w\<lparr>attempts := attempts w @ [operationName]\<rparr>) of
        (Inr v, w') \<Rightarrow> (Inr v, w')
      | (Inl e, w') \<Rightarrow> retry_loop fn k operationName e w')"

definition retry ::
  "(world \<Rightarrow> (error + 'a) \<times> world) \<Rightarrow> nat \<Rightarrow> nat \<Rightarrow> string \<Rightarrow> world \<Rightarrow> (error + 'a) \<times> world" where
  "retry fn retries delay operationName w = retry_loop fn retries operationName Undefined w"

definition getCurrentDateUTC :: "world \<Rightarrow> jstring" where
  "getCurrentDateUTC w = hd (split_str 0x54 (clock w))"


section \<open>manage_issues.js\<close>

subsection \<open>Constants and templates\<close>

definition DAILY_ISSUE_LABEL :: jstring where
  "DAILY_ISSUE_LABEL = js ''daily-task-summary''"

definition DAILY_ISSUE_TITLE_PREFIX :: jstring where
  "DAILY_ISSUE_TITLE_PREFIX = js ''Task Status''"

definition DRAFT_SECTION_HEADER :: jstring where
  "DRAFT_SECTION_HEADER = js ''## '' @ [0x30E1, 0x30E2, 0x30FB, 0x4E0B, 0x66F8, 0x304D]"

definition SUB_ISSUE_LABEL :: jstring where
  "SUB_ISSUE_LABEL = js ''sub-issue''"

definition PLACEHOLDER :: jstring where
  "PLACEHOLDER = js ''<!-- Add any draft notes''"

definition CONFIRMATION_MARKER :: jstring where
  "CONFIRMATION_MARKER =
     [0x4E0B, 0x66F8, 0x304D, 0x30BB, 0x30AF, 0x30B7, 0x30E7, 0x30F3, 0x304B, 0x3089, 0x306E, 0x5B50]
     @ js ''Issue'' @ [0x306E, 0x4F5C, 0x6210]"

definition dailyIssueBody :: "jstring \<Rightarrow> jstring \<Rightarrow> jstring" where
  "dailyIssueBody expectedTitle today =
     js ''# '' @ expectedTitle @ [0x0A, 0x0A]
     @ js ''This issue automatically tracks tasks and reminders for '' @ today @ js ''.'' @ [0x0A, 0x0A]
     @ js ''Please add any relevant notes or drafts below under the designated sections.'' @ [0x0A, 0x0A]
     @ js ''## Reminders & Suggestions'' @ [0x0A, 0x0A] @ js ''*No updates yet.*'' @ [0x0A, 0x0A]
     @ js ''## Metrics & Status'' @ [0x0A, 0x0A] @ js ''*No updates yet.*'' @ [0x0A, 0x0A]
     @ DRAFT_SECTION_HEADER @ [0x0A, 0x0A]
     @ js ''<!-- Add any draft notes or task ideas here. They will be processed into sub-issues if needed. -->''
     @ [0x0A, 0x0A]"

definition reminderCommentBody :: "jstring \<Rightarrow> jstring \<Rightarrow> jstring \<Rightarrow> jstring" where
  "reminderCommentBody now reminder action_suggestions =
     js ''### '' @ [0xD83D, 0xDD52] @ js '' '' @ [0x81EA, 0x52D5, 0x30BF, 0x30B9, 0x30AF, 0x66F4, 0x65B0]
     @ js '' ('' @ now @ js '')'' @ [0x0A, 0x0A]
     @ js ''#### '' @ [0xD83C, 0xDF1F] @ js '' '' @ [0x30EA, 0x30DE, 0x30A4, 0x30F3, 0x30C9, 0x0A, 0x0A]
     @ reminder @ [0x0A, 0x0A]
     @ js ''#### '' @ [0xD83D, 0xDD0D] @ js '' ''
     @ [0x30A2, 0x30AF, 0x30B7, 0x30E7, 0x30F3, 0x63D0, 0x6848, 0x0A, 0x0A]
     @ action_suggestions @ [0x0A, 0x0A] @ js ''---'' @ [0x0A] @ js ''*''
     @ [0x3053, 0x306E, 0x66F4, 0x65B0, 0x306F, 0x81EA, 0x52D5, 0x7684, 0x306B, 0x751F, 0x6210, 0x3055,
        0x308C, 0x3066, 0x3044, 0x307E, 0x3059, 0x3002, 0x30A2, 0x30AF, 0x30B7, 0x30E7, 0x30F3, 0x3084,
        0x63D0, 0x6848, 0x306F, 0x53C2, 0x8003, 0x3068, 0x3057, 0x3066, 0x3054, 0x6D3B, 0x7528, 0x304F,
        0x3060, 0x3055, 0x3044, 0x3002]
     @ js ''*''"

text \<open>The confirmation request lists the draft lines as \<^verbatim>\<open>${i + 1}. ${line}\<close>, joined by line feeds.\<close>

definition draftItemList :: "jstring list \<Rightarrow> jstring" where
  "draftItemList draftLines =
     join_str [0x0A] (map (\<lambda>(i, line). decimal (i + 1) @ js ''. '' @ line) (enumerate 0 draftLines))"

definition confirmationBody :: "jstring list \<Rightarrow> jstring" where
  "confirmationBody draftLines =
     js ''### '' @ CONFIRMATION_MARKER @ [0x0A, 0x0A]
     @ [0x4E0B, 0x66F8, 0x304D, 0x30BB, 0x30AF, 0x30B7, 0x30E7, 0x30F3, 0x306B] @ js '' ''
     @ decimal (length draftLines) @ js '' ''
     @ [0x4EF6, 0x306E, 0x9805, 0x76EE, 0x304C, 0x898B, 0x3064, 0x304B, 0x308A, 0x307E, 0x3057, 0x305F,
        0x3002, 0x3053, 0x308C, 0x3089, 0x3092, 0x5B50]
     @ js ''Issue''
     @ [0x3068, 0x3057, 0x3066, 0x4F5C, 0x6210, 0x3057, 0x307E, 0x3059, 0x304B, 0xFF1F, 0x0A, 0x4F5C,
        0x6210, 0x3059, 0x308B, 0x5834, 0x5408, 0x306F, 0x3001, 0x3053, 0x306E, 0x30B3, 0x30E1, 0x30F3,
        0x30C8, 0x306B]
     @ js '' '' @ [0xD83D, 0xDC4D] @ js '' (thumbs up) ''
     @ [0x30EA, 0x30A2, 0x30AF, 0x30B7, 0x30E7, 0x30F3, 0x3092, 0x8FFD, 0x52A0, 0x3057, 0x3066, 0x304F,
        0x3060, 0x3055, 0x3044, 0x3002, 0x0A, 0x0A]
     @ js ''**'' @ [0x4E0B, 0x66F8, 0x304D, 0x9805, 0x76EE, 0x4E00, 0x89A7] @ js '':**'' @ [0x0A]
     @ draftItemList draftLines
     @ [0x0A, 0x0A] @ js ''*'' @ [0x6CE8] @ js '': ''
     @ [0x30EA, 0x30A2, 0x30AF, 0x30B7, 0x30E7, 0x30F3, 0x304C, 0x8FFD, 0x52A0, 0x3055, 0x308C, 0x308B,
        0x307E, 0x3067, 0x3001, 0x81EA, 0x52D5, 0x7684, 0x306B, 0x5B50]
     @ js ''Issue'' @ [0x306F, 0x4F5C, 0x6210, 0x3055, 0x308C, 0x307E, 0x305B, 0x3093, 0x3002] @ js ''*''"

definition subIssueBody :: "jstring \<Rightarrow> nat \<Rightarrow> jstring \<Rightarrow> jstring \<Rightarrow> jstring" where
  "subIssueBody today issueNumber parent_url draftTitle =
     js ''### '' @ [0x80CC, 0x666F, 0x0A, 0x3053, 0x306E] @ js '' Issue '' @ [0x306F, 0x3001] @ js ''[''
     @ DAILY_ISSUE_TITLE_PREFIX @ js '' '' @ today @ js '' (#'' @ decimal issueNumber @ js '')]('' @ parent_url
     @ js '') ''
     @ [0x306E, 0x4E0B, 0x66F8, 0x304D, 0x30BB, 0x30AF, 0x30B7, 0x30E7, 0x30F3, 0x304B, 0x3089, 0x81EA,
        0x52D5, 0x751F, 0x6210, 0x3055, 0x308C, 0x307E, 0x3057, 0x305F, 0x3002, 0x0A, 0x0A]
     @ js ''### '' @ [0x8A73, 0x7D30, 0x0A]
     @ draftTitle
     @ [0x0A, 0x0A] @ js ''### '' @ [0x89AA] @ js ''Issue'' @ [0x0A] @ js ''#'' @ decimal issueNumber @ [0x0A]"

definition referenceCommentBody :: "jstring \<Rightarrow> nat \<Rightarrow> jstring" where
  "referenceCommentBody draftTitle n =
     [0x30B5, 0x30D6] @ js ''Issue '' @ [0x300C] @ draftTitle
     @ [0x300D, 0x3092, 0x4F5C, 0x6210, 0x3057, 0x307E, 0x3057, 0x305F] @ js '': #'' @ decimal n"

subsection \<open>findOrCreateDailyIssue\<close>

definition findOrCreateDailyIssue :: "config \<Rightarrow> world \<Rightarrow> (error + nat \<times> jstring) \<times> world" where
  "findOrCreateDailyIssue cfg w =
     (if \<not> truthy (TARGET_REPO_OWNER cfg) \<or> \<not> truthy (TARGET_REPO_NAME cfg)
      then (Inl (Error ''Target repository owner or name is not defined. Set TARGET_REPO_OWNER and TARGET_REPO_NAME environment variables or ensure GITHUB_REPOSITORY is available.''), w)
      else
        (case initializeOctokit cfg of
           Inl e \<Rightarrow> (Inl e, w)
         | Inr _ \<Rightarrow>
             (let today = getCurrentDateUTC w;
                  expectedTitle = DAILY_ISSUE_TITLE_PREFIX @ js '' '' @ today
              in case retry (request (issues_listForRepo (Some DAILY_ISSUE_LABEL))) 3 1000
                        ''listIssuesForRepo'' w of
                   (Inl e, w1) \<Rightarrow> (Inl e, w1)
                 | (Inr found, w1) \<Rightarrow>
                     (case find (\<lambda>i. title i = expectedTitle) found of
                        Some existingIssue \<Rightarrow>
                          (Inr (number existingIssue, html_url existingIssue), w1)
                      | None \<Rightarrow>
                          (case retry (request (issues_create expectedTitle
                                         (dailyIssueBody expectedTitle today) [DAILY_ISSUE_LABEL]))
                                  3 1500 ''createIssue'' w1 of
                             (Inl e, w2) \<Rightarrow> (Inl e, w2)
                           | (Inr newIssue, w2) \<Rightarrow>
                               (Inr (number newIssue, html_url newIssue), w2))))))"

subsection \<open>postCommentToDailyIssue\<close>

text \<open>A posting failure is caught inside the function and reported as \<^verbatim>\<open>null\<close>.\<close>

definition postCommentToDailyIssue ::
  "config \<Rightarrow> nat option \<Rightarrow> (jstring \<times> jstring) option \<Rightarrow> world
     \<Rightarrow> (error + (nat \<times> jstring) option) \<times> world" where
  "postCommentToDailyIssue cfg issueNumber reminderData w =
     (if \<not> truthy (TARGET_REPO_OWNER cfg) \<or> \<not> truthy (TARGET_REPO_NAME cfg)
      then (Inl (Error ''Target repository owner or name is not defined.''), w)
      else
        (case (if issueNumber = Some 0 then None else issueNumber) of
           None \<Rightarrow> (Inl (Error ''Issue number is required to post a comment.''), w)
         | Some n \<Rightarrow>
             (case reminderData of
                None \<Rightarrow>
                  (Inl (Error ''Reminder data with 'reminder' and 'action_suggestions' is required.''), w)
              | Some (reminder, action_suggestions) \<Rightarrow>
                  if reminder = [] \<or> action_suggestions = []
                  then (Inl (Error ''Reminder data with 'reminder' and 'action_suggestions' is required.''), w)
                  else
                    (case initializeOctokit cfg of
                       Inl e \<Rightarrow> (Inl e, w)
                     | Inr _ \<Rightarrow>
                         (case retry (request (issues_createComment n
                                        (reminderCommentBody (clock w) reminder action_suggestions)))
                                 3 1500 ''createComment'' w of
                            (Inl e, w1) \<Rightarrow> (Inr None, w1)
                          | (Inr c, w1) \<Rightarrow> (Inr (Some (comment_id c, comment_html_url c)), w1))))))"

subsection \<open>processDrafts\<close>

text \<open>
  The drafts region of an issue body: the text after the first occurrence of the section
  header, cut at the next \<^verbatim>\<open>##\<close> when there is one, trimmed. \<open>None\<close> stands for
  \<^verbatim>\<open>draftSectionIndex === -1\<close>.
\<close>

definition draftsContentOf :: "jstring \<Rightarrow> jstring option" where
  "draftsContentOf issueBody =
     (let draftSectionIndex = indexOf issueBody DRAFT_SECTION_HEADER
      in if draftSectionIndex = - 1 then None
         else (let draftText =
                     substringFrom issueBody (draftSectionIndex + int (length DRAFT_SECTION_HEADER));
                   nextSectionIndex = indexOf draftText (js ''##'')
               in Some (if nextSectionIndex \<noteq> - 1
                        then trim (substring draftText 0 nextSectionIndex)
                        else trim draftText)))"

definition draftLinesOf :: "jstring \<Rightarrow> jstring list" where
  "draftLinesOf draftsContent =
     filter matchesDraftLine (map trim (split_str 0x0A draftsContent))"

definition draftTitleOf :: "jstring \<Rightarrow> jstring" where
  "draftTitleOf draft = trim (removeListMarker draft)"

definition isConfirmation :: "comment \<Rightarrow> bool" where
  "isConfirmation c = (includes_str (comment_body c) CONFIRMATION_MARKER \<and> user_type c = js ''Bot'')"

definition hasThumbsUp :: "reaction list \<Rightarrow> bool" where
  "hasThumbsUp rs = list_ex (\<lambda>r. content r = js ''+1'') rs"

definition issueExists :: "(jstring \<Rightarrow> jstring) \<Rightarrow> issue list \<Rightarrow> jstring \<Rightarrow> bool" where
  "issueExists toLowerCase existingIssues draftTitle =
     list_ex (\<lambda>existingIssue.
                toLowerCase (title existingIssue) = toLowerCase draftTitle
                \<or> includes_str (toLowerCase (title existingIssue)) (toLowerCase draftTitle))
       existingIssues"

text \<open>
  The inner \<^verbatim>\<open>try\<close> of the loop: create the sub-issue, count it, post the reference comment.
  Its \<^verbatim>\<open>catch\<close> only logs, so the block always hands the statistics on.
\<close>

definition createSubIssue :: "nat \<Rightarrow> issue \<Rightarrow> jstring \<Rightarrow> stats \<Rightarrow> world \<Rightarrow> stats \<times> world" where
  "createSubIssue issueNumber parent draftTitle st w =
     (let today = getCurrentDateUTC w;
          issueBody = subIssueBody today issueNumber (html_url parent) draftTitle
      in case retry (request (issues_create draftTitle issueBody [SUB_ISSUE_LABEL])) 3 1500
                ''createSubIssue'' w of
           (Inl subIssueError, w1) \<Rightarrow> (st, w1)
         | (Inr newIssue, w1) \<Rightarrow>
             (let st1 = st\<lparr>created := created st + 1\<rparr>
              in case retry (request (issues_createComment issueNumber
                                (referenceCommentBody draftTitle (number newIssue))))
                        3 1500 ''createReferenceComment'' w1 of
                   (Inl subIssueError, w2) \<Rightarrow> (st1, w2)
                 | (Inr c, w2) \<Rightarrow> (st1, w2)))"

text \<open>
  \<^verbatim>\<open>for (const draft of draftLines)\<close>. The result carries the error that left the loop, if
  any, next to the statistics at that moment: the outer \<^verbatim>\<open>catch\<close> returns them.
\<close>

fun draftLoop ::
  "(jstring \<Rightarrow> jstring) \<Rightarrow> nat \<Rightarrow> issue \<Rightarrow> jstring list \<Rightarrow> stats \<Rightarrow> world \<Rightarrow> (error option \<times> stats) \<times> world" where
  "draftLoop toLowerCase issueNumber parent [] st w = ((None, st), w)"
| "draftLoop toLowerCase issueNumber parent (draft # rest) st w =
     (let draftTitle = draftTitleOf draft
      in if draftTitle = [] then draftLoop toLowerCase issueNumber parent rest st w
         else
           (case retry (request (issues_listForRepo None)) 3 1000 ''checkExistingIssues'' w of
              (Inl e, w1) \<Rightarrow> ((Some e, st), w1)
            | (Inr existingIssues, w1) \<Rightarrow>
                if issueExists toLowerCase existingIssues draftTitle
                then draftLoop toLowerCase issueNumber parent rest (st\<lparr>existed := existed st + 1\<rparr>) w1
                else (case createSubIssue issueNumber parent draftTitle st w1 of
                        (st2, w2) \<Rightarrow> draftLoop toLowerCase issueNumber parent rest st2 w2)))"

text \<open>The body of the outer \<^verbatim>\<open>try\<close>, from fetching the issue to the loop.\<close>

definition processDrafts_try ::
  "(jstring \<Rightarrow> jstring) \<Rightarrow> nat \<Rightarrow> stats \<Rightarrow> world \<Rightarrow> (error option \<times> stats) \<times> world" where
  "processDrafts_try toLowerCase issueNumber st w =
     (case retry (request (issues_get issueNumber)) 3 1000 ''getIssue'' w of
        (Inl e, w1) \<Rightarrow> ((Some e, st), w1)
      | (Inr parent, w1) \<Rightarrow>
          (let issueBody = (case body parent of None \<Rightarrow> [] | Some b \<Rightarrow> b)
           in case draftsContentOf issueBody of
                None \<Rightarrow> ((None, st), w1)
              | Some draftsContent \<Rightarrow>
                  if draftsContent = [] \<or> includes_str draftsContent PLACEHOLDER
                  then ((None, st), w1)
                  else
                    (case retry (request (issues_listComments issueNumber)) 3 1000
                            ''listComments'' w1 of
                       (Inl e, w2) \<Rightarrow> ((Some e, st), w2)
                     | (Inr cs, w2) \<Rightarrow>
                         (let draftLines = draftLinesOf draftsContent;
                              st1 = st\<lparr>processed := length draftLines\<rparr>
                          in if length draftLines = 0 then ((None, st1), w2)
                             else
                               (case find isConfirmation cs of
                                  None \<Rightarrow>
                                    (case retry (request (issues_createComment issueNumber
                                                   (confirmationBody draftLines)))
                                            3 1500 ''createConfirmationComment'' w2 of
                                       (Inl e, w3) \<Rightarrow> ((Some e, st1), w3)
                                     | (Inr newComment, w3) \<Rightarrow> ((None, st1), w3))
                                | Some confirmationComment \<Rightarrow>
                                    (case retry (request (reactions_listForIssueComment
                                                   (comment_id confirmationComment)))
                                            3 1000 ''listReactions'' w2 of
                                       (Inl e, w3) \<Rightarrow> ((Some e, st1), w3)
                                     | (Inr rs, w3) \<Rightarrow>
                                         if \<not> hasThumbsUp rs then ((None, st1), w3)
                                         else draftLoop toLowerCase issueNumber parent draftLines st1 w3))))))"

text \<open>
  The function itself: the two precondition checks and the client are outside the
  \<^verbatim>\<open>try\<close>, and its \<^verbatim>\<open>catch\<close> returns the statistics as they stand.
\<close>

definition processDrafts ::
  "(jstring \<Rightarrow> jstring) \<Rightarrow> config \<Rightarrow> nat option \<Rightarrow> world \<Rightarrow> (error + stats) \<times> world" where
  "processDrafts toLowerCase cfg issueNumber w =
     (if \<not> truthy (TARGET_REPO_OWNER cfg) \<or> \<not> truthy (TARGET_REPO_NAME cfg)
      then (Inl (Error ''Target repository owner or name is not defined.''), w)
      else
        (case (if issueNumber = Some 0 then None else issueNumber) of
           None \<Rightarrow> (Inl (Error ''Issue number is required to process drafts.''), w)
         | Some n \<Rightarrow>
             (case initializeOctokit cfg of
                Inl e \<Rightarrow> (Inl e, w)
              | Inr _ \<Rightarrow>
                  (case processDrafts_try toLowerCase n \<lparr>processed = 0, created = 0, existed = 0\<rparr> w of
                     ((_, st), w') \<Rightarrow> (Inr st, w')))))"


section \<open>collect_repo_data.js and generate_reminder.js\<close>

text \<open>
  The collected data only feeds the prompt of the language model; its page size and sort
  order are left out.
\<close>

definition collectRepoData :: "config \<Rightarrow> world \<Rightarrow> (error + issue list \<times> issue list) \<times> world" where
  "collectRepoData cfg w =
     (if \<not> truthy (TARGET_REPO_OWNER cfg) \<or> \<not> truthy (TARGET_REPO_NAME cfg)
      then (Inl (Error ''Target repository owner or name is not defined.''), w)
      else
        (case initializeOctokit cfg of
           Inl e \<Rightarrow> (Inl e, w)
         | Inr _ \<Rightarrow>
             (case retry (request (issues_listForRepo None)) 3 1000 ''listIssuesForRepo'' w of
                (Inl e, w1) \<Rightarrow> (Inl e, w1)
              | (Inr found, w1) \<Rightarrow>
                  (let openIssues = filter (\<lambda>i. \<not> pull_request i) found
                   in case retry (request pulls_list) 3 1000 ''listPulls'' w1 of
                        (Inl e, w2) \<Rightarrow> (Inl e, w2)
                      | (Inr pulls, w2) \<Rightarrow> (Inr (openIssues, pulls), w2)))))"

text \<open>
  One request to the language model. Its answer is classified by what the script does
  with it: no message content, content that \<^verbatim>\<open>JSON.parse\<close> rejects, an object without the
  two string fields, or the two strings.
\<close>

definition chat_completion :: "world \<Rightarrow> (error + generation) \<times> world" where
  "chat_completion w =
     (case outcomes w of
        True # rest \<Rightarrow> (Inl (RequestError 500), w\<lparr>outcomes := rest\<rparr>)
      | _ \<Rightarrow> (Inr (generated w), w\<lparr>outcomes := tl (outcomes w)\<rparr>))"

definition generateReminder ::
  "config \<Rightarrow> issue list \<times> issue list \<Rightarrow> world \<Rightarrow> (error + (jstring \<times> jstring) option) \<times> world" where
  "generateReminder cfg repoData w =
     (case initializeOpenAI cfg of
        Inl e \<Rightarrow> (Inl e, w)
      | Inr _ \<Rightarrow>
          (case retry chat_completion 3 2000 ''openaiChatCompletion'' w of
             (Inl e, w1) \<Rightarrow> (Inr None, w1)
           | (Inr EmptyContent, w1) \<Rightarrow> (Inr None, w1)
           | (Inr InvalidJson, w1) \<Rightarrow> (Inr None, w1)
           | (Inr MissingKeys, w1) \<Rightarrow> (Inr None, w1)
           | (Inr (Generated reminder action_suggestions), w1) \<Rightarrow>
               (Inr (Some (reminder, action_suggestions)), w1)))"

section \<open>main.js\<close>

definition setOutput :: "string \<Rightarrow> outval \<Rightarrow> world \<Rightarrow> world" where
  "setOutput name v w = w\<lparr>outputs := outputs w @ [(name, v)]\<rparr>"

definition generationFailed :: "jstring \<Rightarrow> world \<Rightarrow> world" where
  "generationFailed url w =
     setOutput ''sub_issues_processed'' (Str (js ''0''))
       (setOutput ''issue_url'' (Str url)
          (setOutput ''action_suggestions'' (Str (js ''Generation failed''))
             (setOutput ''reminder'' (Str (js ''Generation failed'')) w)))"

text \<open>The body of the \<^verbatim>\<open>try\<close> in \<^verbatim>\<open>main\<close>, steps 1 to 5.\<close>

definition main_try :: "(jstring \<Rightarrow> jstring) \<Rightarrow> config \<Rightarrow> world \<Rightarrow> (error + unit) \<times> world" where
  "main_try toLowerCase cfg w =
     (case findOrCreateDailyIssue cfg w of
        (Inl e, w1) \<Rightarrow> (Inl e, w1)
      | (Inr dailyIssue, w1) \<Rightarrow>
          (case collectRepoData cfg w1 of
             (Inl e, w2) \<Rightarrow> (Inl e, w2)
           | (Inr repoData, w2) \<Rightarrow>
               (case generateReminder cfg repoData w2 of
                  (Inl e, w3) \<Rightarrow> (Inl e, w3)
                | (Inr None, w3) \<Rightarrow> (Inr (), generationFailed (snd dailyIssue) w3)
                | (Inr (Some reminderData), w3) \<Rightarrow>
                    (let w4 = setOutput ''action_suggestions''
                                (Str (substring (snd reminderData) 0 100 @ js ''...''))
                                (setOutput ''reminder''
                                   (Str (substring (fst reminderData) 0 100 @ js ''...'')) w3)
                     in case postCommentToDailyIssue cfg (Some (fst dailyIssue))
                               (Some reminderData) w4 of
                          (Inl e, w5) \<Rightarrow> (Inl e, w5)
                        | (Inr posted, w5) \<Rightarrow>
                            (case processDrafts toLowerCase cfg (Some (fst dailyIssue)) w5 of
                               (Inl e, w6) \<Rightarrow> (Inl e, w6)
                             | (Inr draftsStats, w6) \<Rightarrow>
                                 (Inr (), setOutput ''sub_issues_processed'' (Json draftsStats)
                                            (setOutput ''issue_url'' (Str (snd dailyIssue)) w6)))))))"

datatype completion = Returned | Exited nat

definition main :: "(jstring \<Rightarrow> jstring) \<Rightarrow> config \<Rightarrow> world \<Rightarrow> completion \<times> world" where
  "main toLowerCase cfg w =
     (case main_try toLowerCase cfg w of
        (Inr u, w') \<Rightarrow> (Returned, w')
      | (Inl e, w') \<Rightarrow> (if CI cfg then Exited 1 else Returned, setOutput ''error'' (Message e) w'))"


section \<open>Example runs\<close>

text \<open>A configured run and a tracker that holds one daily issue, to evaluate the scripts on.\<close>

definition example_config :: config where
  "example_config =
     \<lparr>TARGET_REPO_OWNER = Some (js ''o''), TARGET_REPO_NAME = Some (js ''r''),
      GITHUB_TOKEN = Some (js ''t''), OPENAI_API_KEY = Some (js ''k''), CI = False\<rparr>"

definition example_issue :: "jstring \<Rightarrow> issue" where
  "example_issue b =
     \<lparr>number = 1, title = js ''Task Status 2025-01-02'', body = Some b, html_url = js ''/issues/1'',
      labels = [DAILY_ISSUE_LABEL], state_open = True, pull_request = False\<rparr>"

definition example_world :: "jstring \<Rightarrow> comment list \<Rightarrow> reaction list \<Rightarrow> bool list \<Rightarrow> world" where
  "example_world b cs rs os =
     \<lparr>tracker = \<lparr>issues = [example_issue b], comments = cs, reactions = rs, actor_type = js ''Bot''\<rparr>,
      outcomes = os, attempts = [], clock = js ''2025-01-02T03:04:05.000Z'',
      generated = InvalidJson, outputs = []\<rparr>"

definition template_comment :: jstring where
  "template_comment =
     js ''<!-- Add any draft notes or task ideas here. They will be processed into sub-issues if needed. -->''"

definition approved_world :: "bool list \<Rightarrow> world" where
  "approved_world os =
     example_world
       (DRAFT_SECTION_HEADER @ [0x0A] @ js ''- Do A'' @ [0x0A] @ js ''- Do B'' @ [0x0A] @ js ''## Next'')
       [\<lparr>comment_id = 7, comment_issue = 1, comment_body = CONFIRMATION_MARKER,
         comment_html_url = [], user_type = js ''Bot''\<rparr>]
       [\<lparr>reaction_comment = 7, content = js ''+1''\<rparr>] os"

definition awaiting_world :: world where
  "awaiting_world =
     example_world
       (DRAFT_SECTION_HEADER @ [0x0A] @ js ''- Do A'' @ [0x0A] @ js ''- Do B'' @ [0x0A] @ js ''## Next'')
       [\<lparr>comment_id = 7, comment_issue = 1, comment_body = CONFIRMATION_MARKER,
         comment_html_url = [], user_type = js ''Bot''\<rparr>]
       [] []"

definition drafts_world :: "jstring \<Rightarrow> bool list \<Rightarrow> world" where
  "drafts_world region os =
     example_world (DRAFT_SECTION_HEADER @ [0x0A] @ region)
       [\<lparr>comment_id = 7, comment_issue = 1, comment_body = CONFIRMATION_MARKER,
         comment_html_url = [], user_type = js ''Bot''\<rparr>]
       [\<lparr>reaction_comment = 7, content = js ''+1''\<rparr>] os"

definition proposal_world :: world where
  "proposal_world =
     example_world
       (DRAFT_SECTION_HEADER @ [0x0A] @ js ''- Do A'' @ [0x0A] @ js ''- Do B'' @ [0x0A] @ js ''## Next'')
       [] [] []"

definition placeholder_world :: world where
  "placeholder_world =
     example_world (DRAFT_SECTION_HEADER @ [0x0A] @ template_comment @ [0x0A] @ js ''- Do A'') [] [] []"

section \<open>Properties\<close>

subsection \<open>Strings\<close>

lemma indexOfFrom_char:
  "(indexOfFrom p i s = - 1 \<and> (\<forall>k \<le> length s. take (length p) (drop k s) \<noteq> p))
   \<or> (\<exists>k \<le> length s. indexOfFrom p i s = int (i + k) \<and> take (length p) (drop k s) = p
          \<and> (\<forall>j < k. take (length p) (drop j s) \<noteq> p))"
proof (induction s arbitrary: i)
  case Nil
  show ?case by auto
next
  case (Cons c cs)
  show ?case
  proof (cases "take (length p) (c # cs) = p")
    case True
    then have "indexOfFrom p i (c # cs) = int (i + 0)" "take (length p) (drop 0 (c # cs)) = p" by simp_all
    then show ?thesis by blast
  next
    case False
    then have e: "indexOfFrom p i (c # cs) = indexOfFrom p (Suc i) cs" by simp
    from Cons.IH [of "Suc i"] show ?thesis
    proof (elim disjE exE conjE)
      assume a: "indexOfFrom p (Suc i) cs = - 1" "\<forall>k \<le> length cs. take (length p) (drop k cs) \<noteq> p"
      have "\<forall>k \<le> length (c # cs). take (length p) (drop k (c # cs)) \<noteq> p"
      proof (intro allI impI)
        fix k assume "k \<le> length (c # cs)"
        then show "take (length p) (drop k (c # cs)) \<noteq> p"
          using a(2) False by (cases k) auto
      qed
      with a(1) e show ?thesis by simp
    next
      fix k assume a: "k \<le> length cs" "indexOfFrom p (Suc i) cs = int (Suc i + k)"
        "take (length p) (drop k cs) = p" "\<forall>j<k. take (length p) (drop j cs) \<noteq> p"
      have "\<forall>j < Suc k. take (length p) (drop j (c # cs)) \<noteq> p"
      proof (intro allI impI)
        fix j assume "j < Suc k"
        then show "take (length p) (drop j (c # cs)) \<noteq> p"
          using a(4) False by (cases j) auto
      qed
      moreover have "indexOfFrom p i (c # cs) = int (i + Suc k)" using e a(2) by simp
      moreover have "take (length p) (drop (Suc k) (c # cs)) = p" using a(3) by simp
      moreover have "Suc k \<le> length (c # cs)" using a(1) by simp
      ultimately show ?thesis by blast
    qed
  qed
qed

lemma indexOf_first:
  assumes "k \<le> length s" "take (length p) (drop k s) = p" "\<forall>j < k. take (length p) (drop j s) \<noteq> p"
  shows "indexOf s p = int k"
proof -
  from indexOfFrom_char [of p 0 s] assms(1,2)
  obtain k' where k': "k' \<le> length s" "indexOfFrom p 0 s = int k'" "take (length p) (drop k' s) = p"
     "\<forall>j < k'. take (length p) (drop j s) \<noteq> p" by auto
  have "k' = k"
  proof (rule ccontr)
    assume "k' \<noteq> k"
    then consider "k' < k" | "k < k'" by linarith
    then show False using k'(3,4) assms(2,3) by cases auto
  qed
  with k'(2) show ?thesis by (simp add: indexOf_def)
qed

lemma includes_str_iff: "includes_str s p \<longleftrightarrow> (\<exists>a b. s = a @ p @ b)"
proof
  assume "includes_str s p"
  with indexOfFrom_char [of p 0 s] obtain k where "k \<le> length s" "take (length p) (drop k s) = p"
    by (auto simp: includes_str_def indexOf_def)
  then have "s = take k s @ p @ drop (length p) (drop k s)"
    by (metis append_take_drop_id)
  then show "\<exists>a b. s = a @ p @ b" by blast
next
  assume "\<exists>a b. s = a @ p @ b"
  then obtain a b where s: "s = a @ p @ b" by blast
  then have "length a \<le> length s" "take (length p) (drop (length a) s) = p" by simp_all
  with indexOfFrom_char [of p 0 s] show "includes_str s p"
    by (auto simp: includes_str_def indexOf_def)
qed

lemma not_includes_take:
  assumes "\<not> includes_str (a @ butlast p) p" "j < length a"
  shows "take (length p) (drop j (a @ p @ b)) \<noteq> p"
proof
  assume e: "take (length p) (drop j (a @ p @ b)) = p"
  have "p \<noteq> []"
  proof
    assume "p = []"
    then have "a @ butlast p = (a @ butlast p) @ p @ []" by simp
    then have "includes_str (a @ butlast p) p" unfolding includes_str_iff by blast
    with assms(1) show False by simp
  qed
  have "take (length p) (drop j (a @ p @ b)) = take (length p) (drop j (a @ butlast p))"
  proof -
    have "length (drop j a) \<ge> 1" using assms(2) by simp
    then have m: "length p - length (drop j a) < length p"
      using \<open>p \<noteq> []\<close> by (cases p) auto
    have "take (length p) (drop j a @ p @ b) = take (length p) (drop j a @ butlast p)"
      using take_butlast [OF m] m by simp
    then show ?thesis using assms(2) by simp
  qed
  with e have "take (length p) (drop j (a @ butlast p)) = p" by simp
  then have "a @ butlast p = take j (a @ butlast p) @ p @ drop (length p) (drop j (a @ butlast p))"
    by (metis append_take_drop_id)
  then have "includes_str (a @ butlast p) p" unfolding includes_str_iff by blast
  with assms(1) show False by simp
qed

lemma indexOf_append:
  assumes "\<not> includes_str (a @ butlast p) p"
  shows "indexOf (a @ p @ b) p = int (length a)"
  by (rule indexOf_first) (use assms not_includes_take in auto)

lemma substring_take: "substring s 0 (int k) = take k s"
proof (cases "k \<le> length s")
  case True
  then have "min (int k) (int (length s)) = int k" by simp
  then show ?thesis by (simp add: substring_def Let_def)
next
  case False
  then have "min (int k) (int (length s)) = int (length s)" by simp
  with False show ?thesis by (simp add: substring_def Let_def)
qed

lemma substringFrom_drop: "substringFrom s (int k) = drop k s"
proof (cases "k \<le> length s")
  case True
  then have "min (int k) (int (length s)) = int k" "max (int k) (int (length s)) = int (length s)" by simp_all
  then show ?thesis using True by (simp add: substringFrom_def substring_def Let_def nat_diff_distrib' of_nat_diff)
next
  case False
  then have "min (int k) (int (length s)) = int (length s)" by simp
  with False show ?thesis by (simp add: substringFrom_def substring_def Let_def)
qed

lemma listMarker_iff:
  "listMarker l = Some r \<longleftrightarrow>
     (\<exists>m. l = m @ r \<and> (m = js ''-'' \<or> m = js ''*''
            \<or> (\<exists>ds. ds \<noteq> [] \<and> (\<forall>d \<in> set ds. isDigit d) \<and> m = ds @ js ''.'')))"
proof
  assume a: "listMarker l = Some r"
  show "\<exists>m. l = m @ r \<and> (m = js ''-'' \<or> m = js ''*''
            \<or> (\<exists>ds. ds \<noteq> [] \<and> (\<forall>d \<in> set ds. isDigit d) \<and> m = ds @ js ''.''))"
  proof (cases l)
    case Nil
    with a show ?thesis by (simp add: listMarker_def)
  next
    case (Cons c cs)
    show ?thesis
    proof (cases "c = 0x2D \<or> c = 0x2A")
      case True
      with a Cons have "r = cs" by (auto simp: listMarker_def)
      with True Cons show ?thesis by (auto simp: js_def)
    next
      case False
      let ?ds = "takeWhile isDigit l" and ?r = "dropWhile isDigit l"
      from a Cons False have b: "?ds \<noteq> []" "?r \<noteq> []" "hd ?r = 0x2E" "r = tl ?r"
        by (auto simp: listMarker_def Let_def split: if_splits)
      then have "?r = [0x2E] @ r" by (cases ?r) auto
      moreover have "l = ?ds @ ?r" by simp
      moreover have "js ''.'' = [0x2E]" by (simp add: js_def)
      ultimately have "l = (?ds @ js ''.'') @ r" by simp
      moreover have "\<forall>d \<in> set ?ds. isDigit d" by (auto dest: set_takeWhileD)
      ultimately show ?thesis using b(1) by blast
    qed
  qed
next
  assume "\<exists>m. l = m @ r \<and> (m = js ''-'' \<or> m = js ''*''
            \<or> (\<exists>ds. ds \<noteq> [] \<and> (\<forall>d \<in> set ds. isDigit d) \<and> m = ds @ js ''.''))"
  then obtain m where l: "l = m @ r" and m: "m = js ''-'' \<or> m = js ''*''
            \<or> (\<exists>ds. ds \<noteq> [] \<and> (\<forall>d \<in> set ds. isDigit d) \<and> m = ds @ js ''.'')" by blast
  from m show "listMarker l = Some r"
  proof (elim disjE exE conjE)
    assume "m = js ''-''" with l show ?thesis by (simp add: listMarker_def js_def)
  next
    assume "m = js ''*''" with l show ?thesis by (simp add: listMarker_def js_def)
  next
    fix ds assume ds: "ds \<noteq> []" "\<forall>d \<in> set ds. isDigit d" "m = ds @ js ''.''"
    with l have l': "l = ds @ [0x2E] @ r" by (simp add: js_def)
    have nd: "\<not> isDigit 0x2E" by (simp add: isDigit_def)
    from ds(2) nd have t: "takeWhile isDigit l = ds" "dropWhile isDigit l = [0x2E] @ r"
      unfolding l' by (simp_all add: takeWhile_append2 dropWhile_append2)
    from ds obtain d ds' where dd: "ds = d # ds'" "isDigit d" by (cases ds) auto
    then have "d \<noteq> 0x2D" "d \<noteq> 0x2A" by (auto simp: isDigit_def)
    with t ds(1) dd l' show ?thesis
      by (simp add: listMarker_def Let_def)
  qed
qed

lemma lineTerminator_whiteSpace: "isLineTerminator c \<Longrightarrow> isWhiteSpace c"
  by (simp add: isWhiteSpace_def)

lemma draft_tail_iff:
  "(takeWhile isWhiteSpace r \<noteq> []
      \<and> (dropWhile isWhiteSpace r \<noteq> []
         \<or> list_ex (\<lambda>c. \<not> isLineTerminator c) (tl (takeWhile isWhiteSpace r))))
   \<longleftrightarrow> (\<exists>ws tx. r = ws @ tx \<and> ws \<noteq> [] \<and> (\<forall>c \<in> set ws. isWhiteSpace c)
          \<and> tx \<noteq> [] \<and> \<not> isLineTerminator (hd tx))"
  (is "?L \<longleftrightarrow> ?R")
proof
  assume l: ?L
  let ?run = "takeWhile isWhiteSpace r" and ?after = "dropWhile isWhiteSpace r"
  from l have run: "?run \<noteq> []" by simp
  have all: "\<forall>c \<in> set ?run. isWhiteSpace c" by (auto dest: set_takeWhileD)
  show ?R
  proof (cases "?after \<noteq> []")
    case True
    then have "\<not> isWhiteSpace (hd ?after)" by (rule hd_dropWhile)
    then have "\<not> isLineTerminator (hd ?after)" using lineTerminator_whiteSpace by blast
    moreover have "r = ?run @ ?after" by simp
    ultimately show ?thesis using run all True by blast
  next
    case False
    with l have "list_ex (\<lambda>c. \<not> isLineTerminator c) (tl ?run)" by simp
    then obtain c where c: "c \<in> set (tl ?run)" "\<not> isLineTerminator c" by (auto simp: list_ex_iff)
    then obtain xs ys where s: "tl ?run = xs @ c # ys" by (auto dest: split_list)
    with run have r1: "?run = (hd ?run # xs) @ (c # ys)" by (cases ?run) auto
    have "r = ?run @ ?after" by simp
    with r1 have "r = (hd ?run # xs) @ ((c # ys) @ ?after)" by (metis append_assoc)
    moreover have "\<forall>c \<in> set (hd ?run # xs). isWhiteSpace c"
    proof
      fix x assume "x \<in> set (hd ?run # xs)"
      with r1 have "x \<in> set ?run" by (metis Un_iff set_append)
      with all show "isWhiteSpace x" by blast
    qed
    ultimately show ?thesis using c(2) by (intro exI [of _ "hd ?run # xs"] exI [of _ "(c # ys) @ ?after"]) simp
  qed
next
  assume ?R
  then obtain ws tx where r: "r = ws @ tx" and ws: "ws \<noteq> []" "\<forall>c \<in> set ws. isWhiteSpace c"
    and tx: "tx \<noteq> []" "\<not> isLineTerminator (hd tx)" by blast
  from ws(2) have t: "takeWhile isWhiteSpace r = ws @ takeWhile isWhiteSpace tx"
    and d: "dropWhile isWhiteSpace r = dropWhile isWhiteSpace tx"
    unfolding r by (simp_all add: takeWhile_append2 dropWhile_append2)
  from tx obtain c cs where tc: "tx = c # cs" "\<not> isLineTerminator c" by (cases tx) auto
  from ws obtain w ws' where wc: "ws = w # ws'" by (cases ws) auto
  show ?L
  proof (cases "isWhiteSpace c")
    case True
    with t tc wc have "c \<in> set (tl (takeWhile isWhiteSpace r))" by simp
    with tc(2) t ws show ?thesis by (auto simp: list_ex_iff)
  next
    case False
    with d tc t ws show ?thesis by simp
  qed
qed

lemma matchesDraftLine_iff:
  "matchesDraftLine l \<longleftrightarrow>
     (\<exists>m ws tx. l = m @ ws @ tx
         \<and> (m = js ''-'' \<or> m = js ''*''
            \<or> (\<exists>ds. ds \<noteq> [] \<and> (\<forall>d \<in> set ds. isDigit d) \<and> m = ds @ js ''.''))
         \<and> ws \<noteq> [] \<and> (\<forall>c \<in> set ws. isWhiteSpace c)
         \<and> tx \<noteq> [] \<and> \<not> isLineTerminator (hd tx))"
  (is "?L \<longleftrightarrow> ?R")
proof
  assume ?L
  then obtain r where r: "listMarker l = Some r"
    and t: "takeWhile isWhiteSpace r \<noteq> []
      \<and> (dropWhile isWhiteSpace r \<noteq> []
         \<or> list_ex (\<lambda>c. \<not> isLineTerminator c) (tl (takeWhile isWhiteSpace r)))"
    by (auto simp: matchesDraftLine_def split: option.splits)
  from r [unfolded listMarker_iff] t [unfolded draft_tail_iff] show ?R by blast
next
  assume ?R
  then obtain m ws tx where l: "l = m @ ws @ tx"
    and m: "m = js ''-'' \<or> m = js ''*''
            \<or> (\<exists>ds. ds \<noteq> [] \<and> (\<forall>d \<in> set ds. isDigit d) \<and> m = ds @ js ''.'')"
    and w: "ws \<noteq> []" "\<forall>c \<in> set ws. isWhiteSpace c" "tx \<noteq> []" "\<not> isLineTerminator (hd tx)"
    by blast
  from l m have "listMarker l = Some (ws @ tx)" unfolding listMarker_iff by blast
  moreover from w have "takeWhile isWhiteSpace (ws @ tx) \<noteq> []
      \<and> (dropWhile isWhiteSpace (ws @ tx) \<noteq> []
         \<or> list_ex (\<lambda>c. \<not> isLineTerminator c) (tl (takeWhile isWhiteSpace (ws @ tx))))"
    unfolding draft_tail_iff by blast
  ultimately show ?L by (simp add: matchesDraftLine_def)
qed

lemma split_str_nonempty: "split_str sep s \<noteq> []"
  by (induction s) (auto split: list.splits)

lemma join_split_str: "join_str [sep] (split_str sep s) = s"
proof (induction s)
  case Nil
  show ?case by simp
next
  case (Cons c cs)
  obtain x xs where x: "split_str sep cs = x # xs"
    using split_str_nonempty [of sep cs] by (cases "split_str sep cs") auto
  with Cons show ?case by (cases xs) auto
qed

lemma split_str_no_sep: "l \<in> set (split_str sep s) \<Longrightarrow> sep \<notin> set l"
  by (induction s arbitrary: l) (auto split: if_splits list.splits)

lemma draftsContentOf_region:
  assumes h: "\<not> includes_str (pre @ butlast DRAFT_SECTION_HEADER) DRAFT_SECTION_HEADER"
    and r: "(rest = [] \<and> \<not> includes_str region (js ''##''))
            \<or> ((\<exists>r. rest = js ''##'' @ r) \<and> \<not> includes_str (region @ js ''#'') (js ''##''))"
  shows "draftsContentOf (pre @ DRAFT_SECTION_HEADER @ region @ rest) = Some (trim region)"
proof -
  let ?H = DRAFT_SECTION_HEADER
  let ?b = "pre @ ?H @ region @ rest"
  have i: "indexOf ?b ?H = int (length pre)" by (rule indexOf_append [OF h])
  have "int (length pre) + int (length ?H) = int (length (pre @ ?H))" by simp
  then have d: "substringFrom ?b (int (length pre) + int (length ?H)) = region @ rest"
    by (simp only: substringFrom_drop) simp
  have b2: "butlast (js ''##'') = js ''#''" by (simp add: js_def)
  from r have "(if indexOf (region @ rest) (js ''##'') \<noteq> - 1
                then trim (substring (region @ rest) 0 (indexOf (region @ rest) (js ''##'')))
                else trim (region @ rest)) = trim region"
  proof
    assume a: "rest = [] \<and> \<not> includes_str region (js ''##'')"
    then show ?thesis by (simp add: includes_str_def)
  next
    assume a: "(\<exists>r. rest = js ''##'' @ r) \<and> \<not> includes_str (region @ js ''#'') (js ''##'')"
    then obtain r' where r': "rest = js ''##'' @ r'" by blast
    from a have "\<not> includes_str (region @ butlast (js ''##'')) (js ''##'')" by (simp add: b2)
    from indexOf_append [OF this, of r'] r'
    have "indexOf (region @ rest) (js ''##'') = int (length region)" by simp
    then show ?thesis by (simp add: substring_take)
  qed
  with i d show ?thesis by (simp add: draftsContentOf_def Let_def)
qed


subsection \<open>Requests and retries\<close>

text \<open>
  A retried request either fails and leaves the tracker as it was, or answers once with the
  effect of the call; it changes nothing else but the outcome script and the log.
\<close>

lemma request_cases:
  "request call w = (r, w') \<Longrightarrow>
     clock w' = clock w \<and> generated w' = generated w \<and> outputs w' = outputs w \<and>
     ((\<exists>e. r = Inl e \<and> tracker w' = tracker w)
      \<or> (\<exists>v. call (tracker w) = Inr (v, tracker w') \<and> r = Inr v))"
  by (auto simp: request_def split: list.splits bool.splits sum.splits prod.splits)

lemma retry_loop_cases:
  "retry_loop (request call) k name e0 w = (r, w') \<Longrightarrow>
     clock w' = clock w \<and> generated w' = generated w \<and> outputs w' = outputs w \<and>
     ((\<exists>e. r = Inl e \<and> tracker w' = tracker w)
      \<or> (\<exists>v. call (tracker w) = Inr (v, tracker w') \<and> r = Inr v))"
proof (induction k arbitrary: w e0)
  case 0
  then show ?case by auto
next
  case (Suc k)
  obtain r1 w1 where a: "request call (w\<lparr>attempts := attempts w @ [name]\<rparr>) = (r1, w1)"
    by (cases "request call (w\<lparr>attempts := attempts w @ [name]\<rparr>)")
  from request_cases [OF a]
  have b: "clock w1 = clock w" "generated w1 = generated w" "outputs w1 = outputs w"
    "(\<exists>e. r1 = Inl e \<and> tracker w1 = tracker w)
       \<or> (\<exists>v. call (tracker w) = Inr (v, tracker w1) \<and> r1 = Inr v)"
    by auto
  show ?case
  proof (cases r1)
    case (Inl e)
    with Suc.prems a have "retry_loop (request call) k name e w1 = (r, w')" by simp
    from Suc.IH [OF this] b Inl show ?thesis by auto
  next
    case (Inr v)
    with Suc.prems a have "r = Inr v" "w' = w1" by auto
    with b Inr show ?thesis by auto
  qed
qed

lemma retry_cases:
  "retry (request call) k d name w = (r, w') \<Longrightarrow>
     clock w' = clock w \<and> generated w' = generated w \<and> outputs w' = outputs w \<and>
     ((\<exists>e. r = Inl e \<and> tracker w' = tracker w)
      \<or> (\<exists>v. call (tracker w) = Inr (v, tracker w') \<and> r = Inr v))"
  unfolding retry_def by (rule retry_loop_cases)

lemma calm_tl: "calm (b # bs) \<Longrightarrow> calm bs"
  by (induction "b # bs" arbitrary: b bs rule: calm.induct) auto

lemma calm_cases:
  assumes "calm os"
  obtains "os = []" | bs where "os = False # bs" "calm bs"
  | "os = [True]" | bs where "os = True # False # bs" "calm bs"
  | "os = [True, True]" | bs where "os = True # True # False # bs" "calm bs"
proof (cases os)
  case Nil
  then show ?thesis using that by blast
next
  case (Cons a as)
  note 1 = this
  show ?thesis
  proof (cases a)
    case False
    with 1 assms that show ?thesis by auto
  next
    case True
    note t1 = this
    show ?thesis
    proof (cases as)
      case Nil
      with 1 t1 that show ?thesis by blast
    next
      case (Cons b bs)
      note 2 = this
      show ?thesis
      proof (cases b)
        case False
        with 1 2 t1 assms that(4) show ?thesis by auto
      next
        case True
        note t2 = this
        show ?thesis
        proof (cases bs)
          case Nil
          with 1 2 t1 t2 that show ?thesis by blast
        next
          case (Cons c cs)
          with 1 2 t1 t2 assms have "c = False" "calm cs" by (auto dest: calm_tl)
          with Cons 1 2 t1 t2 that(6) show ?thesis by auto
        qed
      qed
    qed
  qed
qed

lemma retry_calm:
  assumes c: "calm (outcomes w)" and r: "call (tracker w) = Inr (v, t)"
  shows "\<exists>w'. retry (request call) 3 d name w = (Inr v, w') \<and> tracker w' = t \<and> calm (outcomes w')
              \<and> clock w' = clock w \<and> generated w' = generated w \<and> outputs w' = outputs w"
  using c
proof (cases rule: calm_cases)
  case 1
  with r show ?thesis by (simp add: retry_def numeral_3_eq_3 request_def)
next
  case (2 bs)
  with r show ?thesis by (simp add: retry_def numeral_3_eq_3 request_def)
next
  case 3
  with r show ?thesis by (simp add: retry_def numeral_3_eq_3 request_def)
next
  case (4 bs)
  with r show ?thesis by (simp add: retry_def numeral_3_eq_3 request_def)
next
  case 5
  with r show ?thesis by (simp add: retry_def numeral_3_eq_3 request_def)
next
  case (6 bs)
  with r show ?thesis by (simp add: retry_def numeral_3_eq_3 request_def)
qed

lemma request_attempts: "request call w = (r, w') \<Longrightarrow> attempts w' = attempts w"
  by (auto simp: request_def split: list.splits bool.splits sum.splits prod.splits)

lemma retry_loop_log:
  "retry_loop (request call) k name e0 w = (r, w') \<Longrightarrow>
     (\<exists>j \<le> k. attempts w' = attempts w @ replicate j name \<and> ((\<exists>e. r = Inl e) \<longrightarrow> j = k))"
proof (induction k arbitrary: w e0)
  case 0
  then show ?case by auto
next
  case (Suc k)
  obtain r1 w1 where a: "request call (w\<lparr>attempts := attempts w @ [name]\<rparr>) = (r1, w1)"
    by (cases "request call (w\<lparr>attempts := attempts w @ [name]\<rparr>)")
  from request_attempts [OF a] have b: "attempts w1 = attempts w @ [name]" by simp
  show ?case
  proof (cases r1)
    case (Inl e)
    with Suc.prems a have "retry_loop (request call) k name e w1 = (r, w')" by simp
    from Suc.IH [OF this] obtain j where "j \<le> k" "attempts w' = attempts w1 @ replicate j name"
      "(\<exists>e. r = Inl e) \<longrightarrow> j = k" by blast
    with b have "Suc j \<le> Suc k" "attempts w' = attempts w @ replicate (Suc j) name"
      "(\<exists>e. r = Inl e) \<longrightarrow> Suc j = Suc k" by (simp_all add: replicate_append_same)
    then show ?thesis by blast
  next
    case (Inr v)
    with Suc.prems a have "r = Inr v" "w' = w1" by auto
    with b have "Suc 0 \<le> Suc k" "attempts w' = attempts w @ replicate (Suc 0) name"
      "(\<exists>e. r = Inl e) \<longrightarrow> Suc 0 = Suc k" by simp_all
    then show ?thesis by blast
  qed
qed

lemma retry_exhausted_log:
  "retry (request call) 3 d name w = (Inl e, w') \<Longrightarrow> attempts w' = attempts w @ [name, name, name]"
  unfolding retry_def by (drule retry_loop_log) (auto simp: numeral_3_eq_3)

lemma retry_first_try:
  assumes "outcomes w = False # bs" and "call (tracker w) = Inr (v, t)"
  shows "\<exists>w'. retry (request call) 3 d name w = (Inr v, w') \<and> tracker w' = t \<and> outcomes w' = bs
              \<and> clock w' = clock w"
  using assms by (simp add: retry_def numeral_3_eq_3 request_def)

lemma retry_exhausted:
  assumes "outcomes w = True # True # True # bs"
  shows "\<exists>e w'. retry (request call) 3 d name w = (Inl e, w') \<and> tracker w' = tracker w
              \<and> outcomes w' = bs \<and> clock w' = clock w"
  using assms by (simp add: retry_def numeral_3_eq_3 request_def)

lemma script_cases:
  obtains "os = []" | bs where "os = False # bs"
  | "os = [True]" | bs where "os = True # False # bs"
  | "os = [True, True]" | bs where "os = True # True # False # bs"
  | bs where "os = True # True # True # bs"
proof (cases os)
  case Nil
  then show ?thesis using that by blast
next
  case (Cons a as)
  note 1 = this
  show ?thesis
  proof (cases a)
    case False
    with 1 that show ?thesis by blast
  next
    case True
    note t1 = this
    show ?thesis
    proof (cases as)
      case Nil
      with 1 t1 that show ?thesis by blast
    next
      case (Cons b bs)
      note 2 = this
      show ?thesis
      proof (cases b)
        case False
        with 1 2 t1 that(4) show ?thesis by blast
      next
        case True
        note t2 = this
        show ?thesis
        proof (cases bs)
          case Nil
          with 1 2 t1 t2 that show ?thesis by blast
        next
          case (Cons c cs)
          with 1 2 t1 t2 that(6,7) show ?thesis by (cases c) blast+
        qed
      qed
    qed
  qed
qed

lemma retry_script:
  assumes r: "call (tracker w) = Inr (v, t)"
  shows "\<exists>w'. retry (request call) 3 d name w
                = (if exhausted (outcomes w) then Inl (RequestError 500) else Inr v, w')
              \<and> outcomes w' = after_retry (outcomes w)
              \<and> tracker w' = (if exhausted (outcomes w) then tracker w else t)
              \<and> clock w' = clock w"
proof (cases "outcomes w" rule: script_cases)
  case 1
  with r show ?thesis
    by (simp add: retry_def numeral_3_eq_3 request_def exhausted_def after_retry_def)
next
  case (2 bs)
  with r show ?thesis
    by (simp add: retry_def numeral_3_eq_3 request_def exhausted_def after_retry_def)
next
  case 3
  with r show ?thesis
    by (simp add: retry_def numeral_3_eq_3 request_def exhausted_def after_retry_def)
next
  case (4 bs)
  with r show ?thesis
    by (simp add: retry_def numeral_3_eq_3 numeral_2_eq_2 request_def exhausted_def after_retry_def)
next
  case 5
  with r show ?thesis
    by (simp add: retry_def numeral_3_eq_3 numeral_2_eq_2 request_def exhausted_def after_retry_def)
next
  case (6 bs)
  with r show ?thesis
    by (simp add: retry_def numeral_3_eq_3 numeral_2_eq_2 request_def exhausted_def after_retry_def)
next
  case (7 bs)
  with r show ?thesis
    by (simp add: retry_def numeral_3_eq_3 numeral_2_eq_2 request_def exhausted_def after_retry_def)
qed

lemma getIssue_cases:
  assumes "retry (request (issues_get n)) k d name w = (r, w')"
  shows "tracker w' = tracker w \<and> clock w' = clock w
         \<and> ((\<exists>e. r = Inl e)
            \<or> (\<exists>i. find (\<lambda>i. number i = n) (issues (tracker w)) = Some i \<and> r = Inr i))"
  using retry_cases [OF assms] by (auto simp: issues_get_def split: option.splits)

lemma listComments_cases:
  assumes "retry (request (issues_listComments n)) k d name w = (r, w')"
  shows "tracker w' = tracker w \<and> clock w' = clock w
         \<and> ((\<exists>e. r = Inl e) \<or> r = Inr (filter (\<lambda>c. comment_issue c = n) (comments (tracker w))))"
  using retry_cases [OF assms] by (auto simp: issues_listComments_def)

lemma listReactions_cases:
  assumes "retry (request (reactions_listForIssueComment c)) k d name w = (r, w')"
  shows "tracker w' = tracker w \<and> clock w' = clock w
         \<and> ((\<exists>e. r = Inl e) \<or> r = Inr (filter (\<lambda>r. reaction_comment r = c) (reactions (tracker w))))"
  using retry_cases [OF assms] by (auto simp: reactions_listForIssueComment_def)

lemma listForRepo_cases:
  assumes "retry (request (issues_listForRepo l)) k d name w = (r, w')"
  shows "tracker w' = tracker w \<and> clock w' = clock w
         \<and> ((\<exists>e. r = Inl e)
            \<or> r = Inr (filter (\<lambda>i. state_open i \<and> (case l of None \<Rightarrow> True | Some x \<Rightarrow> x \<in> set (labels i)))
                        (issues (tracker w))))"
  using retry_cases [OF assms] by (auto simp: issues_listForRepo_def)

lemma createComment_cases:
  assumes "retry (request (issues_createComment n bdy)) k d name w = (r, w')"
  shows "clock w' = clock w
         \<and> (((\<exists>e. r = Inl e) \<and> tracker w' = tracker w)
            \<or> (r = Inr (posted_comment (tracker w) n bdy)
               \<and> tracker w' = (tracker w)\<lparr>comments := comments (tracker w) @ [posted_comment (tracker w) n bdy]\<rparr>))"
  using retry_cases [OF assms]
  by (auto simp: issues_createComment_def posted_comment_def Let_def split: if_splits)

lemma create_cases:
  assumes "retry (request (issues_create ttl bdy lbls)) k d name w = (r, w')"
  shows "clock w' = clock w
         \<and> (((\<exists>e. r = Inl e) \<and> tracker w' = tracker w)
            \<or> (r = Inr (opened_issue (tracker w) ttl bdy lbls)
               \<and> tracker w' = (tracker w)\<lparr>issues := opened_issue (tracker w) ttl bdy lbls # issues (tracker w)\<rparr>))"
  using retry_cases [OF assms]
  by (auto simp: issues_create_def opened_issue_def Let_def)

lemmas str_eval = js_def indexOf_def includes_str_def substring_def substringFrom_def trim_def
  isWhiteSpace_def isLineTerminator_def isDigit_def listMarker_def matchesDraftLine_def
  removeListMarker_def toLowerCase_ascii_def DRAFT_SECTION_HEADER_def PLACEHOLDER_def

subsection \<open>processDrafts\<close>

lemma processDrafts_configured:
  assumes "truthy (TARGET_REPO_OWNER cfg)" "truthy (TARGET_REPO_NAME cfg)"
    "truthy (GITHUB_TOKEN cfg)" "n \<noteq> 0"
  shows "processDrafts lc cfg (Some n) w =
           (Inr (snd (fst (processDrafts_try lc n \<lparr>processed = 0, created = 0, existed = 0\<rparr> w))),
            snd (processDrafts_try lc n \<lparr>processed = 0, created = 0, existed = 0\<rparr> w))"
  using assms by (simp add: processDrafts_def initializeOctokit_def split: prod.splits)

lemma processDrafts_try_nothing_authored:
  assumes run: "processDrafts_try lc n st w = ((err, st'), w')"
    and parent: "find (\<lambda>i. number i = n) (issues (tracker w)) = Some parent"
    and region: "draftsContentOf (case body parent of None \<Rightarrow> [] | Some b \<Rightarrow> b) = Some c"
    and empty: "c = [] \<or> includes_str c PLACEHOLDER"
  shows "st' = st \<and> tracker w' = tracker w"
proof -
  obtain r1 w1 where g: "retry (request (issues_get n)) 3 1000 ''getIssue'' w = (r1, w1)"
    by (cases "retry (request (issues_get n)) 3 1000 ''getIssue'' w")
  from getIssue_cases [OF g] parent
  have t: "tracker w1 = tracker w" and c: "(\<exists>e. r1 = Inl e) \<or> r1 = Inr parent" by auto
  from c show ?thesis
  proof
    assume "\<exists>e. r1 = Inl e"
    with run g t show ?thesis by (auto simp: processDrafts_try_def)
  next
    assume "r1 = Inr parent"
    with run g t region empty show ?thesis by (auto simp: processDrafts_try_def)
  qed
qed

lemma processDrafts_try_phases:
  assumes run: "processDrafts_try lc n st w = ((err, st'), w')"
  shows "(st' = st \<and> tracker w' = tracker w \<and> err \<noteq> None)
    \<or> (\<exists>parent. find (\<lambda>i. number i = n) (issues (tracker w)) = Some parent \<and>
         (case draftsContentOf (case body parent of None \<Rightarrow> [] | Some b \<Rightarrow> b) of
            None \<Rightarrow> st' = st \<and> tracker w' = tracker w \<and> err = None
          | Some c \<Rightarrow>
              if c = [] \<or> includes_str c PLACEHOLDER
              then st' = st \<and> tracker w' = tracker w \<and> err = None
              else
                (if draftLinesOf c = []
                 then st' = st\<lparr>processed := 0\<rparr> \<and> tracker w' = tracker w \<and> err = None
                 else
                   (case find isConfirmation (filter (\<lambda>c. comment_issue c = n) (comments (tracker w))) of
                      None \<Rightarrow>
                        st' = st\<lparr>processed := length (draftLinesOf c)\<rparr> \<and>
                        ((tracker w' = tracker w \<and> err \<noteq> None)
                         \<or> (err = None \<and>
                            tracker w' = (tracker w)\<lparr>comments := comments (tracker w)
                               @ [posted_comment (tracker w) n (confirmationBody (draftLinesOf c))]\<rparr>))
                    | Some cc \<Rightarrow>
                        (st' = st\<lparr>processed := length (draftLinesOf c)\<rparr>
                         \<and> tracker w' = tracker w \<and> err \<noteq> None)
                        \<or> (if \<not> hasThumbsUp (filter (\<lambda>r. reaction_comment r = comment_id cc)
                                                 (reactions (tracker w)))
                            then st' = st\<lparr>processed := length (draftLinesOf c)\<rparr>
                                 \<and> tracker w' = tracker w \<and> err = None
                            else \<exists>w3. tracker w3 = tracker w \<and> clock w3 = clock w \<and>
                                   draftLoop lc n parent (draftLinesOf c)
                                     (st\<lparr>processed := length (draftLinesOf c)\<rparr>) w3 = ((err, st'), w'))))))"
proof -
  let ?c = "\<lambda>p. draftsContentOf (case body p of None \<Rightarrow> [] | Some b \<Rightarrow> b)"
  obtain r1 w1 where g: "retry (request (issues_get n)) 3 1000 ''getIssue'' w = (r1, w1)"
    by (cases "retry (request (issues_get n)) 3 1000 ''getIssue'' w")
  from getIssue_cases [OF g]
  have t1: "tracker w1 = tracker w" "clock w1 = clock w"
    and c1: "(\<exists>e. r1 = Inl e) \<or> (\<exists>i. find (\<lambda>i. number i = n) (issues (tracker w)) = Some i \<and> r1 = Inr i)"
    by auto
  from c1 show ?thesis
  proof
    assume "\<exists>e. r1 = Inl e"
    with run g t1 show ?thesis by (auto simp: processDrafts_try_def)
  next
    assume "\<exists>i. find (\<lambda>i. number i = n) (issues (tracker w)) = Some i \<and> r1 = Inr i"
    then obtain parent where p: "find (\<lambda>i. number i = n) (issues (tracker w)) = Some parent"
      and r1: "r1 = Inr parent" by auto
    show ?thesis
    proof (cases "?c parent")
      case None
      with run g t1 p r1 show ?thesis by (auto simp: processDrafts_try_def)
    next
      case (Some c)
      show ?thesis
      proof (cases "c = [] \<or> includes_str c PLACEHOLDER")
        case True
        with Some run g t1 p r1 show ?thesis by (auto simp: processDrafts_try_def)
      next
        case False
        obtain r2 w2 where l: "retry (request (issues_listComments n)) 3 1000 ''listComments'' w1 = (r2, w2)"
          by (cases "retry (request (issues_listComments n)) 3 1000 ''listComments'' w1")
        from listComments_cases [OF l] t1
        have t2: "tracker w2 = tracker w" "clock w2 = clock w"
          and c2: "(\<exists>e. r2 = Inl e) \<or> r2 = Inr (filter (\<lambda>c. comment_issue c = n) (comments (tracker w)))"
          by auto
        from c2 show ?thesis
        proof
          assume "\<exists>e. r2 = Inl e"
          with False Some run g l t2 r1 show ?thesis by (auto simp: processDrafts_try_def)
        next
          assume r2: "r2 = Inr (filter (\<lambda>c. comment_issue c = n) (comments (tracker w)))"
          let ?lines = "draftLinesOf c"
          let ?st1 = "st\<lparr>processed := length ?lines\<rparr>"
          show ?thesis
          proof (cases "?lines = []")
            case True
            with False Some run g l t2 r1 r2 p show ?thesis
              by (auto simp: processDrafts_try_def Let_def)
          next
            case lines: False
            show ?thesis
            proof (cases "find isConfirmation (filter (\<lambda>c. comment_issue c = n) (comments (tracker w)))")
              case None
              obtain r3 w3 where cc: "retry (request (issues_createComment n (confirmationBody ?lines)))
                   3 1500 ''createConfirmationComment'' w2 = (r3, w3)"
                by (cases "retry (request (issues_createComment n (confirmationBody ?lines)))
                   3 1500 ''createConfirmationComment'' w2")
              from run g r1 Some False l r2 lines None cc
              have res: "st' = ?st1" "w' = w3" "err = (case r3 of Inl e \<Rightarrow> Some e | Inr _ \<Rightarrow> None)"
                by (auto simp: processDrafts_try_def Let_def split: sum.splits)
              from createComment_cases [OF cc] t2 res
              have "(tracker w' = tracker w \<and> err \<noteq> None)
                        \<or> (err = None \<and>
                            tracker w' = (tracker w)\<lparr>comments := comments (tracker w)
                               @ [posted_comment (tracker w) n (confirmationBody ?lines)]\<rparr>)"
                by auto
              with res p Some False lines None show ?thesis by simp
            next
              case (Some cc)
              obtain r3 w3 where lr: "retry (request (reactions_listForIssueComment (comment_id cc)))
                   3 1000 ''listReactions'' w2 = (r3, w3)"
                by (cases "retry (request (reactions_listForIssueComment (comment_id cc)))
                   3 1000 ''listReactions'' w2")
              from listReactions_cases [OF lr] t2
              have t3: "tracker w3 = tracker w" "clock w3 = clock w"
                and c3: "(\<exists>e. r3 = Inl e) \<or> r3 = Inr (filter (\<lambda>r. reaction_comment r = comment_id cc) (reactions (tracker w)))"
                by auto
              from c3 have "(st' = ?st1 \<and> tracker w' = tracker w \<and> err \<noteq> None)
                        \<or> (if \<not> hasThumbsUp (filter (\<lambda>r. reaction_comment r = comment_id cc)
                                                 (reactions (tracker w)))
                            then st' = ?st1 \<and> tracker w' = tracker w \<and> err = None
                            else \<exists>w3. tracker w3 = tracker w \<and> clock w3 = clock w \<and>
                                   draftLoop lc n parent ?lines ?st1 w3 = ((err, st'), w'))"
              proof
                assume "\<exists>e. r3 = Inl e"
                with run g r1 \<open>?c parent = Some c\<close> False l r2 lines Some lr t3 show ?thesis
                  by (auto simp: processDrafts_try_def Let_def)
              next
                assume r3: "r3 = Inr (filter (\<lambda>r. reaction_comment r = comment_id cc) (reactions (tracker w)))"
                show ?thesis
                proof (cases "hasThumbsUp (filter (\<lambda>r. reaction_comment r = comment_id cc) (reactions (tracker w)))")
                  case True
                  with run g r1 \<open>?c parent = Some c\<close> False l r2 lines Some lr r3
                  have "draftLoop lc n parent ?lines ?st1 w3 = ((err, st'), w')"
                    by (auto simp: processDrafts_try_def Let_def)
                  then show ?thesis using True t3 by auto
                next
                  case nt: False
                  with run g r1 \<open>?c parent = Some c\<close> False l r2 lines Some lr r3 t3 show ?thesis
                    by (auto simp: processDrafts_try_def Let_def)
                qed
              qed
              with p \<open>?c parent = Some c\<close> False lines Some show ?thesis by simp
            qed
          qed
        qed
      qed
    qed
  qed
qed

lemma find_in_set: "find P xs = Some x \<Longrightarrow> x \<in> set xs \<and> P x"
  by (induction xs) (auto split: if_splits)

lemma createSubIssue_cases:
  assumes "createSubIssue n p t st w = (st', w')"
  shows "clock w' = clock w \<and> reactions (tracker w') = reactions (tracker w)
         \<and> actor_type (tracker w') = actor_type (tracker w)
         \<and> (\<exists>extra. comments (tracker w') = comments (tracker w) @ extra)
         \<and> ((st' = st \<and> issues (tracker w') = issues (tracker w))
            \<or> (st' = st\<lparr>created := created st + 1\<rparr>
               \<and> issues (tracker w') =
                   opened_issue (tracker w) t (subIssueBody (getCurrentDateUTC w) n (html_url p) t)
                     [SUB_ISSUE_LABEL] # issues (tracker w)))"
proof -
  let ?b = "subIssueBody (getCurrentDateUTC w) n (html_url p) t"
  obtain r1 w1 where c: "retry (request (issues_create t ?b [SUB_ISSUE_LABEL])) 3 1500 ''createSubIssue'' w = (r1, w1)"
    by (cases "retry (request (issues_create t ?b [SUB_ISSUE_LABEL])) 3 1500 ''createSubIssue'' w")
  note c1 = create_cases [OF c]
  show ?thesis
  proof (cases r1)
    case (Inl e)
    with assms c c1 show ?thesis by (auto simp: createSubIssue_def Let_def)
  next
    case (Inr ni)
    obtain r2 w2 where d: "retry (request (issues_createComment n (referenceCommentBody t (number ni))))
                        3 1500 ''createReferenceComment'' w1 = (r2, w2)"
      by (cases "retry (request (issues_createComment n (referenceCommentBody t (number ni))))
                        3 1500 ''createReferenceComment'' w1")
    note d1 = createComment_cases [OF d]
    from assms c Inr d have res: "st' = st\<lparr>created := created st + 1\<rparr>" "w' = w2"
      by (auto simp: createSubIssue_def Let_def split: sum.splits)
    from c1 Inr have t1: "tracker w1 = (tracker w)\<lparr>issues := opened_issue (tracker w) t ?b [SUB_ISSUE_LABEL] # issues (tracker w)\<rparr>"
      "clock w1 = clock w" by auto
    from d1 t1 res show ?thesis by auto
  qed
qed

lemma draftLoop_stats:
  "draftLoop lc n p ds st w = ((err, st'), w') \<Longrightarrow>
     processed st' = processed st \<and> created st \<le> created st' \<and> existed st \<le> existed st'
     \<and> created st' + existed st' \<le> created st + existed st + length ds"
proof (induction ds arbitrary: st w)
  case Nil
  then show ?case by simp
next
  case (Cons d ds)
  show ?case
  proof (cases "draftTitleOf d = []")
    case True
    with Cons.prems have "draftLoop lc n p ds st w = ((err, st'), w')" by simp
    from Cons.IH [OF this] show ?thesis by simp
  next
    case False
    obtain r1 w1 where f: "retry (request (issues_listForRepo None)) 3 1000 ''checkExistingIssues'' w = (r1, w1)"
      by (cases "retry (request (issues_listForRepo None)) 3 1000 ''checkExistingIssues'' w")
    show ?thesis
    proof (cases r1)
      case (Inl e)
      with Cons.prems False f show ?thesis by (auto simp: Let_def)
    next
      case (Inr ex)
      show ?thesis
      proof (cases "issueExists lc ex (draftTitleOf d)")
        case True
        with Cons.prems False f Inr
        have "draftLoop lc n p ds (st\<lparr>existed := existed st + 1\<rparr>) w1 = ((err, st'), w')"
          by (simp add: Let_def)
        from Cons.IH [OF this] show ?thesis by simp
      next
        case ne: False
        obtain st2 w2 where c: "createSubIssue n p (draftTitleOf d) st w1 = (st2, w2)"
          by (cases "createSubIssue n p (draftTitleOf d) st w1")
        with Cons.prems False f Inr ne
        have "draftLoop lc n p ds st2 w2 = ((err, st'), w')" by (simp add: Let_def)
        from Cons.IH [OF this] createSubIssue_cases [OF c] show ?thesis by auto
      qed
    qed
  qed
qed

lemma processDrafts_try_classes:
  assumes run: "processDrafts_try lc n st w = ((err, st'), w')"
  shows "(tracker w' = tracker w
          \<and> (st' = st
             \<or> (\<exists>parent c. find (\<lambda>i. number i = n) (issues (tracker w)) = Some parent
                  \<and> draftsContentOf (case body parent of None \<Rightarrow> [] | Some b \<Rightarrow> b) = Some c
                  \<and> st' = st\<lparr>processed := length (draftLinesOf c)\<rparr>)))
       \<or> (\<exists>parent c. find (\<lambda>i. number i = n) (issues (tracker w)) = Some parent
            \<and> draftsContentOf (case body parent of None \<Rightarrow> [] | Some b \<Rightarrow> b) = Some c
            \<and> c \<noteq> [] \<and> \<not> includes_str c PLACEHOLDER \<and> draftLinesOf c \<noteq> []
            \<and> find isConfirmation (filter (\<lambda>c. comment_issue c = n) (comments (tracker w))) = None
            \<and> err = None \<and> st' = st\<lparr>processed := length (draftLinesOf c)\<rparr>
            \<and> tracker w' = (tracker w)\<lparr>comments := comments (tracker w)
                               @ [posted_comment (tracker w) n (confirmationBody (draftLinesOf c))]\<rparr>)
       \<or> (\<exists>parent c cc w3. find (\<lambda>i. number i = n) (issues (tracker w)) = Some parent
            \<and> draftsContentOf (case body parent of None \<Rightarrow> [] | Some b \<Rightarrow> b) = Some c
            \<and> c \<noteq> [] \<and> \<not> includes_str c PLACEHOLDER \<and> draftLinesOf c \<noteq> []
            \<and> find isConfirmation (filter (\<lambda>c. comment_issue c = n) (comments (tracker w))) = Some cc
            \<and> hasThumbsUp (filter (\<lambda>r. reaction_comment r = comment_id cc) (reactions (tracker w)))
            \<and> tracker w3 = tracker w \<and> clock w3 = clock w
            \<and> draftLoop lc n parent (draftLinesOf c) (st\<lparr>processed := length (draftLinesOf c)\<rparr>) w3
                 = ((err, st'), w'))"
  using processDrafts_try_phases [OF run]
  apply (elim disjE exE conjE)
   apply simp
  subgoal for parent
    apply (cases "draftsContentOf (case body parent of None \<Rightarrow> [] | Some b \<Rightarrow> b)")
     apply simp
    subgoal for c
      apply (cases "c = [] \<or> includes_str c PLACEHOLDER")
       apply simp
      apply (cases "draftLinesOf c = []")
       apply simp
      apply (cases "find isConfirmation (filter (\<lambda>c. comment_issue c = n) (comments (tracker w)))")
       apply (simp, blast)
      subgoal for cc
        apply (cases "hasThumbsUp (filter (\<lambda>r. reaction_comment r = comment_id cc) (reactions (tracker w)))")
         apply (simp, blast)
        apply (simp, blast)
        done
      done
    done
  done

lemma list_ex_number_find:
  "list_ex (\<lambda>i. number i = n) xs \<longleftrightarrow> (\<exists>i. find (\<lambda>i. number i = n) xs = Some i)"
  by (induction xs) auto

lemma createSubIssue_calm:
  assumes c: "calm (outcomes w)" and p: "list_ex (\<lambda>i. number i = n) (issues (tracker w))"
  shows "\<exists>w'. createSubIssue n parent t st w = (st\<lparr>created := created st + 1\<rparr>, w')
           \<and> calm (outcomes w') \<and> clock w' = clock w
           \<and> issues (tracker w') =
               opened_issue (tracker w) t (subIssueBody (getCurrentDateUTC w) n (html_url parent) t)
                 [SUB_ISSUE_LABEL] # issues (tracker w)
           \<and> reactions (tracker w') = reactions (tracker w)
           \<and> actor_type (tracker w') = actor_type (tracker w)
           \<and> (\<exists>c. comments (tracker w') = comments (tracker w) @ [c] \<and> comment_issue c = n
                  \<and> comment_body c = referenceCommentBody t (fresh_number (tracker w)))"
proof -
  let ?b = "subIssueBody (getCurrentDateUTC w) n (html_url parent) t"
  let ?ni = "opened_issue (tracker w) t ?b [SUB_ISSUE_LABEL]"
  let ?t1 = "(tracker w)\<lparr>issues := ?ni # issues (tracker w)\<rparr>"
  have "issues_create t ?b [SUB_ISSUE_LABEL] (tracker w) = Inr (?ni, ?t1)"
    by (simp add: issues_create_def)
  from retry_calm [where call = "issues_create t ?b [SUB_ISSUE_LABEL]" and d = 1500
                     and name = "''createSubIssue''", OF c this]
  obtain w1 where w1: "retry (request (issues_create t ?b [SUB_ISSUE_LABEL])) 3 1500 ''createSubIssue'' w = (Inr ?ni, w1)"
    "tracker w1 = ?t1" "calm (outcomes w1)" "clock w1 = clock w" by blast
  let ?c = "posted_comment ?t1 n (referenceCommentBody t (number ?ni))"
  from p have "issues_createComment n (referenceCommentBody t (number ?ni)) (tracker w1)
                 = Inr (?c, ?t1\<lparr>comments := comments ?t1 @ [?c]\<rparr>)"
    by (simp add: issues_createComment_def w1(2))
  from retry_calm [where call = "issues_createComment n (referenceCommentBody t (number ?ni))"
                     and d = 1500 and name = "''createReferenceComment''", OF w1(3) this]
  obtain w2 where w2: "retry (request (issues_createComment n (referenceCommentBody t (number ?ni))))
        3 1500 ''createReferenceComment'' w1 = (Inr ?c, w2)"
    "tracker w2 = ?t1\<lparr>comments := comments ?t1 @ [?c]\<rparr>" "calm (outcomes w2)" "clock w2 = clock w1" by blast
  have "createSubIssue n parent t st w = (st\<lparr>created := created st + 1\<rparr>, w2)"
    using w1(1) w2(1) by (simp add: createSubIssue_def Let_def)
  moreover have "comment_issue ?c = n" "comment_body ?c = referenceCommentBody t (fresh_number (tracker w))"
    by (simp_all add: posted_comment_def opened_issue_def)
  ultimately show ?thesis using w2 w1 by auto
qed

lemma draftLoop_calm_step:
  assumes "calm (outcomes w)"
    and "list_ex (\<lambda>i. number i = n) (issues (tracker w))"
    and "draftTitleOf draft \<noteq> []"
  shows "\<exists>w'. calm (outcomes w') \<and> clock w' = clock w
    \<and> reactions (tracker w') = reactions (tracker w)
    \<and> (if issueExists lc (filter state_open (issues (tracker w))) (draftTitleOf draft)
        then (\<forall>rest. draftLoop lc n parent (draft # rest) st w
                      = draftLoop lc n parent rest (st\<lparr>existed := existed st + 1\<rparr>) w')
             \<and> tracker w' = tracker w
        else (\<forall>rest. draftLoop lc n parent (draft # rest) st w
                      = draftLoop lc n parent rest (st\<lparr>created := created st + 1\<rparr>) w')
             \<and> issues (tracker w') =
                 opened_issue (tracker w) (draftTitleOf draft)
                   (subIssueBody (getCurrentDateUTC w) n (html_url parent) (draftTitleOf draft))
                   [SUB_ISSUE_LABEL] # issues (tracker w)
             \<and> (\<exists>c. comments (tracker w') = comments (tracker w) @ [c] \<and> comment_issue c = n
                    \<and> comment_body c = referenceCommentBody (draftTitleOf draft)
                                           (fresh_number (tracker w)))
             \<and> list_ex (\<lambda>i. number i = n) (issues (tracker w')))"
proof -
  let ?t = "draftTitleOf draft"
  let ?ex = "filter (\<lambda>i. state_open i \<and> (case None of None \<Rightarrow> True | Some l \<Rightarrow> l \<in> set (labels i))) (issues (tracker w))"
  have "issues_listForRepo None (tracker w) = Inr (?ex, tracker w)"
    by (simp add: issues_listForRepo_def)
  from retry_calm [where call = "issues_listForRepo None" and d = 1000
                     and name = "''checkExistingIssues''", OF assms(1) this]
  obtain w1 where w1: "retry (request (issues_listForRepo None)) 3 1000 ''checkExistingIssues'' w = (Inr ?ex, w1)"
    "tracker w1 = tracker w" "calm (outcomes w1)" "clock w1 = clock w" by blast
  have ie: "?ex = filter state_open (issues (tracker w))" by simp
  show ?thesis
  proof (cases "issueExists lc ?ex ?t")
    case True
    with w1 assms(3) have "draftLoop lc n parent (draft # rest) st w
               = draftLoop lc n parent rest (st\<lparr>existed := existed st + 1\<rparr>) w1" for rest
      by (simp add: Let_def)
    with True ie w1 show ?thesis by auto
  next
    case False
    from assms(2) w1(2) have "list_ex (\<lambda>i. number i = n) (issues (tracker w1))" by simp
    from createSubIssue_calm [OF w1(3) this, of parent ?t st]
    obtain w2 c where w2: "createSubIssue n parent ?t st w1 = (st\<lparr>created := created st + 1\<rparr>, w2)"
      "calm (outcomes w2)" "clock w2 = clock w1"
      "issues (tracker w2) =
               opened_issue (tracker w1) ?t (subIssueBody (getCurrentDateUTC w1) n (html_url parent) ?t)
                 [SUB_ISSUE_LABEL] # issues (tracker w1)"
      "reactions (tracker w2) = reactions (tracker w1)"
      "comments (tracker w2) = comments (tracker w1) @ [c]" "comment_issue c = n"
      "comment_body c = referenceCommentBody ?t (fresh_number (tracker w1))" by blast
    from w1 w2 False assms(3) have "draftLoop lc n parent (draft # rest) st w
               = draftLoop lc n parent rest (st\<lparr>created := created st + 1\<rparr>) w2" for rest
      by (simp add: Let_def)
    moreover have "getCurrentDateUTC w1 = getCurrentDateUTC w" using w1(4) by (simp add: getCurrentDateUTC_def)
    moreover have "list_ex (\<lambda>i. number i = n) (issues (tracker w2))" using w2(4) assms(2) w1(2) by simp
    moreover have "\<exists>c. comments (tracker w2) = comments (tracker w) @ [c] \<and> comment_issue c = n
                    \<and> comment_body c = referenceCommentBody ?t (fresh_number (tracker w))"
      using w2(6-8) w1(2) by simp
    ultimately show ?thesis using False ie w1 w2 by auto
  qed
qed

lemma issueExists_iff:
  "issueExists lc (filter state_open xs) t \<longleftrightarrow>
     (\<exists>i \<in> set xs. state_open i
        \<and> (lc (title i) = lc t \<or> includes_str (lc (title i)) (lc t)))"
  by (auto simp: issueExists_def list_ex_iff)

lemma draftLoop_created:
  "draftLoop lc n p ds st w = ((err, st'), w') \<Longrightarrow>
     \<exists>new. issues (tracker w') = new @ issues (tracker w)
       \<and> length new = created st' - created st
       \<and> subseq (map title (rev new)) (map draftTitleOf ds)
       \<and> (\<forall>xs b ys. new = xs @ b # ys \<longrightarrow>
             state_open b \<and> labels b = [SUB_ISSUE_LABEL]
             \<and> \<not> issueExists lc (filter state_open (ys @ issues (tracker w))) (title b))"
proof (induction ds arbitrary: st w)
  case Nil
  then show ?case by simp
next
  case (Cons d ds)
  let ?P = "\<lambda>new w0. \<forall>xs b ys. new = xs @ b # ys \<longrightarrow>
             state_open b \<and> labels b = [SUB_ISSUE_LABEL]
             \<and> \<not> issueExists lc (filter state_open (ys @ issues (tracker w0))) (title b)"
  show ?case
  proof (cases "draftTitleOf d = []")
    case True
    with Cons.prems have "draftLoop lc n p ds st w = ((err, st'), w')" by simp
    from Cons.IH [OF this] show ?thesis by (auto intro: subseq_Cons')
  next
    case False
    obtain r1 w1 where f: "retry (request (issues_listForRepo None)) 3 1000 ''checkExistingIssues'' w = (r1, w1)"
      by (cases "retry (request (issues_listForRepo None)) 3 1000 ''checkExistingIssues'' w")
    from listForRepo_cases [OF f]
    have t1: "tracker w1 = tracker w"
      and c1: "(\<exists>e. r1 = Inl e) \<or> r1 = Inr (filter state_open (issues (tracker w)))"
      by auto
    from c1 show ?thesis
    proof
      assume "\<exists>e. r1 = Inl e"
      with Cons.prems False f t1 have "issues (tracker w') = [] @ issues (tracker w)" "st' = st"
        by (auto simp: Let_def)
      then show ?thesis by (intro exI [of _ "[]"]) simp
    next
      assume r1: "r1 = Inr (filter state_open (issues (tracker w)))"
      show ?thesis
      proof (cases "issueExists lc (filter state_open (issues (tracker w))) (draftTitleOf d)")
        case True
        with Cons.prems False f r1
        have "draftLoop lc n p ds (st\<lparr>existed := existed st + 1\<rparr>) w1 = ((err, st'), w')"
          by (simp add: Let_def)
        from Cons.IH [OF this] t1 show ?thesis by (auto intro: subseq_Cons')
      next
        case ne: False
        obtain st2 w2 where c: "createSubIssue n p (draftTitleOf d) st w1 = (st2, w2)"
          by (cases "createSubIssue n p (draftTitleOf d) st w1")
        with Cons.prems False f r1 ne
        have l: "draftLoop lc n p ds st2 w2 = ((err, st'), w')" by (simp add: Let_def)
        from Cons.IH [OF l] obtain new where new: "issues (tracker w') = new @ issues (tracker w2)"
          "length new = created st' - created st2"
          "subseq (map title (rev new)) (map draftTitleOf ds)" "?P new w2" by blast
        let ?ni = "opened_issue (tracker w1) (draftTitleOf d)
                     (subIssueBody (getCurrentDateUTC w1) n (html_url p) (draftTitleOf d)) [SUB_ISSUE_LABEL]"
        from createSubIssue_cases [OF c]
        have "(st2 = st \<and> issues (tracker w2) = issues (tracker w1))
            \<or> (st2 = st\<lparr>created := created st + 1\<rparr> \<and> issues (tracker w2) = ?ni # issues (tracker w1))"
          by auto
        then show ?thesis
        proof
          assume a: "st2 = st \<and> issues (tracker w2) = issues (tracker w1)"
          with new t1 have "issues (tracker w') = new @ issues (tracker w)"
            "length new = created st' - created st" "?P new w" by simp_all
          with new(3) show ?thesis by (intro exI [of _ new]) (auto intro: subseq_Cons')
        next
          assume a: "st2 = st\<lparr>created := created st + 1\<rparr> \<and> issues (tracker w2) = ?ni # issues (tracker w1)"
          from draftLoop_stats [OF l] a have ge: "created st + 1 \<le> created st'" by simp
          have 1: "issues (tracker w') = (new @ [?ni]) @ issues (tracker w)" using new(1) a t1 by simp
          have 2: "length (new @ [?ni]) = created st' - created st" using new(2) a ge by simp
          have 3: "subseq (map title (rev (new @ [?ni]))) (map draftTitleOf (d # ds))"
            using new(3) by (simp add: opened_issue_def)
          have 4: "?P (new @ [?ni]) w"
          proof (intro allI impI)
            fix xs b ys assume s: "new @ [?ni] = xs @ b # ys"
            show "state_open b \<and> labels b = [SUB_ISSUE_LABEL]
                   \<and> \<not> issueExists lc (filter state_open (ys @ issues (tracker w))) (title b)"
            proof (cases ys rule: rev_cases)
              case Nil
              with s have "b = ?ni" by simp
              with Nil ne t1 show ?thesis by (simp add: opened_issue_def)
            next
              case (snoc ys' y)
              with s have "new = xs @ b # ys'" "y = ?ni" by simp_all
              with new(4) a t1 snoc show ?thesis by simp
            qed
          qed
          from 1 2 3 4 show ?thesis by blast
        qed
      qed
    qed
  qed
qed

lemma draftLoop_leaves_after_fetch:
  "draftLoop lc n p ds st w = ((Some e, st'), w') \<Longrightarrow>
     \<exists>log. attempts w' = log @ [''checkExistingIssues'', ''checkExistingIssues'', ''checkExistingIssues'']"
proof (induction ds arbitrary: st w)
  case Nil
  then show ?case by simp
next
  case (Cons d ds)
  show ?case
  proof (cases "draftTitleOf d = []")
    case True
    with Cons.prems have "draftLoop lc n p ds st w = ((Some e, st'), w')" by simp
    from Cons.IH [OF this] show ?thesis .
  next
    case False
    obtain r1 w1 where f: "retry (request (issues_listForRepo None)) 3 1000 ''checkExistingIssues'' w = (r1, w1)"
      by (cases "retry (request (issues_listForRepo None)) 3 1000 ''checkExistingIssues'' w")
    show ?thesis
    proof (cases r1)
      case (Inl e1)
      with Cons.prems False f have "w' = w1" by (simp add: Let_def)
      with retry_exhausted_log [OF f [unfolded Inl]] show ?thesis by blast
    next
      case (Inr ex)
      show ?thesis
      proof (cases "issueExists lc ex (draftTitleOf d)")
        case True
        with Cons.prems False f Inr
        have "draftLoop lc n p ds (st\<lparr>existed := existed st + 1\<rparr>) w1 = ((Some e, st'), w')"
          by (simp add: Let_def)
        from Cons.IH [OF this] show ?thesis .
      next
        case ne: False
        obtain st2 w2 where c: "createSubIssue n p (draftTitleOf d) st w1 = (st2, w2)"
          by (cases "createSubIssue n p (draftTitleOf d) st w1")
        with Cons.prems False f Inr ne
        have "draftLoop lc n p ds st2 w2 = ((Some e, st'), w')" by (simp add: Let_def)
        from Cons.IH [OF this] show ?thesis .
      qed
    qed
  qed
qed

lemma createSubIssue_first_try:
  assumes o: "outcomes w = False # False # bs" and p: "list_ex (\<lambda>i. number i = n) (issues (tracker w))"
  shows "\<exists>w'. createSubIssue n parent t st w = (st\<lparr>created := created st + 1\<rparr>, w')
           \<and> outcomes w' = bs \<and> clock w' = clock w
           \<and> issues (tracker w') =
               opened_issue (tracker w) t (subIssueBody (getCurrentDateUTC w) n (html_url parent) t)
                 [SUB_ISSUE_LABEL] # issues (tracker w)"
proof -
  let ?b = "subIssueBody (getCurrentDateUTC w) n (html_url parent) t"
  let ?ni = "opened_issue (tracker w) t ?b [SUB_ISSUE_LABEL]"
  let ?t1 = "(tracker w)\<lparr>issues := ?ni # issues (tracker w)\<rparr>"
  have "issues_create t ?b [SUB_ISSUE_LABEL] (tracker w) = Inr (?ni, ?t1)"
    by (simp add: issues_create_def)
  from retry_first_try [where call = "issues_create t ?b [SUB_ISSUE_LABEL]" and d = 1500
                     and name = "''createSubIssue''", OF o this]
  obtain w1 where w1: "retry (request (issues_create t ?b [SUB_ISSUE_LABEL])) 3 1500 ''createSubIssue'' w = (Inr ?ni, w1)"
    "tracker w1 = ?t1" "outcomes w1 = False # bs" "clock w1 = clock w" by blast
  let ?c = "posted_comment ?t1 n (referenceCommentBody t (number ?ni))"
  from p have "issues_createComment n (referenceCommentBody t (number ?ni)) (tracker w1)
                 = Inr (?c, ?t1\<lparr>comments := comments ?t1 @ [?c]\<rparr>)"
    by (simp add: issues_createComment_def w1(2))
  from retry_first_try [where call = "issues_createComment n (referenceCommentBody t (number ?ni))"
                     and d = 1500 and name = "''createReferenceComment''", OF w1(3) this]
  obtain w2 where w2: "retry (request (issues_createComment n (referenceCommentBody t (number ?ni))))
        3 1500 ''createReferenceComment'' w1 = (Inr ?c, w2)"
    "tracker w2 = ?t1\<lparr>comments := comments ?t1 @ [?c]\<rparr>" "outcomes w2 = bs" "clock w2 = clock w1" by blast
  have "createSubIssue n parent t st w = (st\<lparr>created := created st + 1\<rparr>, w2)"
    using w1(1) w2(1) by (simp add: createSubIssue_def Let_def)
  then show ?thesis using w2 w1 by auto
qed

lemma createSubIssue_exhausted:
  assumes o: "outcomes w = True # True # True # bs"
  shows "\<exists>w'. createSubIssue n parent t st w = (st, w') \<and> outcomes w' = bs \<and> clock w' = clock w
           \<and> tracker w' = tracker w"
proof -
  let ?b = "subIssueBody (getCurrentDateUTC w) n (html_url parent) t"
  from retry_exhausted [where call = "issues_create t ?b [SUB_ISSUE_LABEL]" and d = 1500
                     and name = "''createSubIssue''", OF o]
  obtain e w1 where w1: "retry (request (issues_create t ?b [SUB_ISSUE_LABEL])) 3 1500 ''createSubIssue'' w = (Inl e, w1)"
    "tracker w1 = tracker w" "outcomes w1 = bs" "clock w1 = clock w" by blast
  then have "createSubIssue n parent t st w = (st, w1)" by (simp add: createSubIssue_def Let_def)
  with w1 show ?thesis by blast
qed

lemma three_drafts_second_creation_fails:
  assumes o: "outcomes w = [False, False, False, False, True, True, True] @ os" and c: "calm os"
    and p: "list_ex (\<lambda>i. number i = n) (issues (tracker w))"
    and t: "draftTitleOf d1 \<noteq> []" "draftTitleOf d2 \<noteq> []" "draftTitleOf d3 \<noteq> []"
    and fresh: "\<forall>t \<in> {draftTitleOf d1, draftTitleOf d2, draftTitleOf d3}.
                 \<not> (\<exists>a \<in> set (issues (tracker w)). state_open a
                        \<and> (lc (title a) = lc t
                           \<or> includes_str (lc (title a)) (lc t)))"
    and d12: "\<not> (lc (draftTitleOf d1) = lc (draftTitleOf d2)
                 \<or> includes_str (lc (draftTitleOf d1)) (lc (draftTitleOf d2)))"
    and d13: "\<not> (lc (draftTitleOf d1) = lc (draftTitleOf d3)
                 \<or> includes_str (lc (draftTitleOf d1)) (lc (draftTitleOf d3)))"
  shows "\<exists>w' b3 b1. draftLoop lc n parent [d1, d2, d3] st w = ((None, st\<lparr>created := created st + 2\<rparr>), w')
           \<and> issues (tracker w') = [b3, b1] @ issues (tracker w)
           \<and> title b1 = draftTitleOf d1 \<and> title b3 = draftTitleOf d3"
proof -
  let ?t1 = "draftTitleOf d1" and ?t2 = "draftTitleOf d2" and ?t3 = "draftTitleOf d3"
  let ?old = "issues (tracker w)"
  let ?list = "\<lambda>t. Inr (filter (\<lambda>i. state_open i \<and> (case None of None \<Rightarrow> True | Some l \<Rightarrow> l \<in> set (labels i))) (issues t), t)"
  have lst: "issues_listForRepo None t = Inr (filter state_open (issues t), t)" for t
    by (simp add: issues_listForRepo_def)
  \<comment> \<open>first draft\<close>
  from retry_first_try [where call = "issues_listForRepo None" and d = 1000
      and name = "''checkExistingIssues''", OF _ lst, of w "[False, False, False, True, True, True] @ os"] o
  obtain w1 where w1: "retry (request (issues_listForRepo None)) 3 1000 ''checkExistingIssues'' w
        = (Inr (filter state_open ?old), w1)" "tracker w1 = tracker w"
      "outcomes w1 = False # False # ([False, True, True, True] @ os)" "clock w1 = clock w" by auto
  from fresh have n1: "\<not> issueExists lc (filter state_open ?old) ?t1" unfolding issueExists_iff by blast
  from p w1(2) have p1: "list_ex (\<lambda>i. number i = n) (issues (tracker w1))" by simp
  from createSubIssue_first_try [OF w1(3) p1, of parent ?t1 st]
  obtain w2 b1 where w2: "createSubIssue n parent ?t1 st w1 = (st\<lparr>created := created st + 1\<rparr>, w2)"
    "outcomes w2 = [False, True, True, True] @ os" "issues (tracker w2) = b1 # ?old"
    "b1 = opened_issue (tracker w1) ?t1 (subIssueBody (getCurrentDateUTC w1) n (html_url parent) ?t1) [SUB_ISSUE_LABEL]"
    using w1(2) by auto
  have b1: "title b1 = ?t1" "state_open b1" using w2(4) by (simp_all add: opened_issue_def)
  have s1: "draftLoop lc n parent [d1, d2, d3] st w
              = draftLoop lc n parent [d2, d3] (st\<lparr>created := created st + 1\<rparr>) w2"
    using t(1) w1(1) n1 w2(1) by (simp add: Let_def)
  \<comment> \<open>second draft\<close>
  from retry_first_try [where call = "issues_listForRepo None" and d = 1000
      and name = "''checkExistingIssues''", OF _ lst, of w2 "[True, True, True] @ os"] w2(2)
  obtain w3 where w3: "retry (request (issues_listForRepo None)) 3 1000 ''checkExistingIssues'' w2
        = (Inr (filter state_open (b1 # ?old)), w3)" "tracker w3 = tracker w2"
      "outcomes w3 = True # True # True # os" using w2(3) by auto
  from fresh d12 b1 have n2: "\<not> issueExists lc (filter state_open (b1 # ?old)) ?t2"
    unfolding issueExists_iff by auto
  from createSubIssue_exhausted [OF w3(3), of n parent ?t2 "st\<lparr>created := created st + 1\<rparr>"]
  obtain w4 where w4: "createSubIssue n parent ?t2 (st\<lparr>created := created st + 1\<rparr>) w3
        = (st\<lparr>created := created st + 1\<rparr>, w4)" "outcomes w4 = os" "tracker w4 = tracker w3" by blast
  have s2: "draftLoop lc n parent [d2, d3] (st\<lparr>created := created st + 1\<rparr>) w2
              = draftLoop lc n parent [d3] (st\<lparr>created := created st + 1\<rparr>) w4"
    using t(2) w3(1) n2 w4(1) by (simp add: Let_def)
  \<comment> \<open>third draft\<close>
  have i4: "issues (tracker w4) = b1 # ?old" using w4(3) w3(2) w2(3) by simp
  from c w4(2) have c4: "calm (outcomes w4)" by simp
  from p i4 have p4: "list_ex (\<lambda>i. number i = n) (issues (tracker w4))" by simp
  from fresh d13 b1 have n3: "\<not> issueExists lc (filter state_open (issues (tracker w4))) ?t3"
    unfolding issueExists_iff i4 by auto
  from draftLoop_calm_step [OF c4 p4 t(3), of lc parent "st\<lparr>created := created st + 1\<rparr>"] n3
  obtain w5 b3 where w5a: "\<forall>rest. draftLoop lc n parent (d3 # rest) (st\<lparr>created := created st + 1\<rparr>) w4
        = draftLoop lc n parent rest (st\<lparr>created := created st + 1\<rparr>\<lparr>created := created (st\<lparr>created := created st + 1\<rparr>) + 1\<rparr>) w5"
      and w5b: "issues (tracker w5) = b3 # issues (tracker w4)"
      "b3 = opened_issue (tracker w4) ?t3 (subIssueBody (getCurrentDateUTC w4) n (html_url parent) ?t3) [SUB_ISSUE_LABEL]"
    by (auto simp del: draftLoop.simps)
  note w5 = w5a [rule_format, of "[]"] w5b
  have b3: "title b3 = ?t3" using w5(3) by (simp add: opened_issue_def)
  have "draftLoop lc n parent [d1, d2, d3] st w = ((None, st\<lparr>created := created st + 2\<rparr>), w5)"
    unfolding s1 s2 w5(1) by simp
  moreover have "issues (tracker w5) = [b3, b1] @ ?old" using w5(2) i4 by simp
  ultimately show ?thesis using b1(1) b3 by blast
qed

lemma draftLinesOf_empty: "draftLinesOf [] = []"
  by (simp add: draftLinesOf_def trim_def matchesDraftLine_def listMarker_def)

lemma find_append_new:
  "find P xs = None \<Longrightarrow> P y \<Longrightarrow> find P (xs @ [y]) = Some y"
  by (induction xs) (auto split: if_splits)

lemma processDrafts_try_calm_propose:
  assumes c: "calm (outcomes w)"
    and p: "find (\<lambda>i. number i = n) (issues (tracker w)) = Some parent"
    and r: "draftsContentOf (case body parent of None \<Rightarrow> [] | Some b \<Rightarrow> b) = Some dc"
    and np: "\<not> includes_str dc PLACEHOLDER"
    and l: "draftLinesOf dc \<noteq> []"
    and nc: "find isConfirmation (filter (\<lambda>c. comment_issue c = n) (comments (tracker w))) = None"
  shows "\<exists>w'. processDrafts_try lc n st w = ((None, st\<lparr>processed := length (draftLinesOf dc)\<rparr>), w')
           \<and> tracker w' = (tracker w)\<lparr>comments := comments (tracker w)
                               @ [posted_comment (tracker w) n (confirmationBody (draftLinesOf dc))]\<rparr>
           \<and> calm (outcomes w') \<and> clock w' = clock w"
proof -
  from l have ne: "dc \<noteq> []" using draftLinesOf_empty by auto
  from p have "issues_get n (tracker w) = Inr (parent, tracker w)" by (simp add: issues_get_def)
  from retry_calm [where call = "issues_get n" and d = 1000 and name = "''getIssue''", OF c this]
  obtain w1 where w1: "retry (request (issues_get n)) 3 1000 ''getIssue'' w = (Inr parent, w1)"
    "tracker w1 = tracker w" "calm (outcomes w1)" "clock w1 = clock w" by blast
  let ?cs = "filter (\<lambda>c. comment_issue c = n) (comments (tracker w))"
  have "issues_listComments n (tracker w1) = Inr (?cs, tracker w1)"
    by (simp add: issues_listComments_def w1(2))
  from retry_calm [where call = "issues_listComments n" and d = 1000 and name = "''listComments''",
      OF w1(3) this]
  obtain w2 where w2: "retry (request (issues_listComments n)) 3 1000 ''listComments'' w1 = (Inr ?cs, w2)"
    "tracker w2 = tracker w1" "calm (outcomes w2)" "clock w2 = clock w1" by blast
  let ?b = "confirmationBody (draftLinesOf dc)"
  let ?c = "posted_comment (tracker w) n ?b"
  from p have "list_ex (\<lambda>i. number i = n) (issues (tracker w))"
    by (auto simp: list_ex_iff dest: find_in_set)
  then have "issues_createComment n ?b (tracker w2)
               = Inr (?c, (tracker w)\<lparr>comments := comments (tracker w) @ [?c]\<rparr>)"
    by (simp add: issues_createComment_def w2(2) w1(2))
  from retry_calm [where call = "issues_createComment n ?b" and d = 1500
      and name = "''createConfirmationComment''", OF w2(3) this]
  obtain w3 where w3: "retry (request (issues_createComment n ?b)) 3 1500 ''createConfirmationComment'' w2
       = (Inr ?c, w3)" "tracker w3 = (tracker w)\<lparr>comments := comments (tracker w) @ [?c]\<rparr>"
    "calm (outcomes w3)" "clock w3 = clock w2" by blast
  have "processDrafts_try lc n st w = ((None, st\<lparr>processed := length (draftLinesOf dc)\<rparr>), w3)"
    using w1(1) w2(1) w3(1) r np ne l nc by (simp add: processDrafts_try_def Let_def)
  with w3 w2 w1 show ?thesis by auto
qed

lemma processDrafts_try_calm_awaiting:
  assumes c: "calm (outcomes w)"
    and p: "find (\<lambda>i. number i = n) (issues (tracker w)) = Some parent"
    and r: "draftsContentOf (case body parent of None \<Rightarrow> [] | Some b \<Rightarrow> b) = Some dc"
    and np: "\<not> includes_str dc PLACEHOLDER"
    and l: "draftLinesOf dc \<noteq> []"
    and cc: "find isConfirmation (filter (\<lambda>c. comment_issue c = n) (comments (tracker w))) = Some cc"
    and nt: "\<not> hasThumbsUp (filter (\<lambda>r. reaction_comment r = comment_id cc) (reactions (tracker w)))"
  shows "\<exists>w'. processDrafts_try lc n st w = ((None, st\<lparr>processed := length (draftLinesOf dc)\<rparr>), w')
           \<and> tracker w' = tracker w \<and> calm (outcomes w')"
proof -
  from l have ne: "dc \<noteq> []" using draftLinesOf_empty by auto
  from p have "issues_get n (tracker w) = Inr (parent, tracker w)" by (simp add: issues_get_def)
  from retry_calm [where call = "issues_get n" and d = 1000 and name = "''getIssue''", OF c this]
  obtain w1 where w1: "retry (request (issues_get n)) 3 1000 ''getIssue'' w = (Inr parent, w1)"
    "tracker w1 = tracker w" "calm (outcomes w1)" by blast
  let ?cs = "filter (\<lambda>c. comment_issue c = n) (comments (tracker w))"
  have "issues_listComments n (tracker w1) = Inr (?cs, tracker w1)"
    by (simp add: issues_listComments_def w1(2))
  from retry_calm [where call = "issues_listComments n" and d = 1000 and name = "''listComments''",
      OF w1(3) this]
  obtain w2 where w2: "retry (request (issues_listComments n)) 3 1000 ''listComments'' w1 = (Inr ?cs, w2)"
    "tracker w2 = tracker w1" "calm (outcomes w2)" by blast
  let ?rs = "filter (\<lambda>r. reaction_comment r = comment_id cc) (reactions (tracker w))"
  have "reactions_listForIssueComment (comment_id cc) (tracker w2) = Inr (?rs, tracker w2)"
    by (simp add: reactions_listForIssueComment_def w2(2) w1(2))
  from retry_calm [where call = "reactions_listForIssueComment (comment_id cc)" and d = 1000
      and name = "''listReactions''", OF w2(3) this]
  obtain w3 where w3: "retry (request (reactions_listForIssueComment (comment_id cc))) 3 1000
        ''listReactions'' w2 = (Inr ?rs, w3)" "tracker w3 = tracker w2" "calm (outcomes w3)" by blast
  have "processDrafts_try lc n st w = ((None, st\<lparr>processed := length (draftLinesOf dc)\<rparr>), w3)"
    using w1(1) w2(1) w3(1) r np ne l cc nt by (simp add: processDrafts_try_def Let_def)
  with w3 w2 w1 show ?thesis by auto
qed

lemma join_str_nth:
  "i < length xs \<Longrightarrow> \<exists>a b. join_str sep xs = a @ xs ! i @ b"
proof (induction sep xs arbitrary: i rule: join_str.induct)
  case (1 sep)
  then show ?case by simp
next
  case (2 sep x)
  then have "join_str sep [x] = [] @ [x] ! i @ []" by simp
  then show ?case by blast
next
  case (3 sep x y ys)
  show ?case
  proof (cases i)
    case 0
    then have "join_str sep (x # y # ys) = [] @ (x # y # ys) ! i @ (sep @ join_str sep (y # ys))" by simp
    then show ?thesis by blast
  next
    case (Suc j)
    with "3.prems" have "j < length (y # ys)" by simp
    from "3.IH" [OF this] obtain a b where "join_str sep (y # ys) = a @ (y # ys) ! j @ b" by blast
    with Suc have "join_str sep (x # y # ys) = (x @ sep @ a) @ (x # y # ys) ! i @ b" by simp
    then show ?thesis by blast
  qed
qed

lemma confirmationBody_lists_items:
  assumes "i < length draftLines"
  shows "includes_str (confirmationBody draftLines) (decimal (i + 1) @ js ''. '' @ draftLines ! i)"
proof -
  let ?items = "map (\<lambda>(i, line). decimal (i + 1) @ js ''. '' @ line) (enumerate 0 draftLines)"
  from assms have "i < length ?items" by simp
  from join_str_nth [OF this, of "[0x0A]"] obtain a b where "join_str [0x0A] ?items = a @ ?items ! i @ b"
    by blast
  moreover from assms have "?items ! i = decimal (i + 1) @ js ''. '' @ draftLines ! i"
    by (simp add: nth_enumerate_eq)
  ultimately have "draftItemList draftLines = a @ (decimal (i + 1) @ js ''. '' @ draftLines ! i) @ b"
    by (simp add: draftItemList_def)
  then have "\<exists>a' b'. confirmationBody draftLines = a' @ (decimal (i + 1) @ js ''. '' @ draftLines ! i) @ b'"
    unfolding confirmationBody_def by (metis append.assoc)
  then show ?thesis unfolding includes_str_iff .
qed

lemma confirmationBody_marker: "includes_str (confirmationBody draftLines) CONFIRMATION_MARKER"
proof -
  have "\<exists>a b. confirmationBody draftLines = a @ CONFIRMATION_MARKER @ b"
    unfolding confirmationBody_def by (metis append.assoc)
  then show ?thesis unfolding includes_str_iff .
qed

lemma find_none: "\<forall>x \<in> set xs. \<not> P x \<Longrightarrow> find P xs = None"
  by (induction xs) auto

lemma draftLoop_append:
  "draftLoop lc n p (xs @ ys) st w =
     (case draftLoop lc n p xs st w of
        ((None, st1), w1) \<Rightarrow> draftLoop lc n p ys st1 w1
      | ((Some e, st1), w1) \<Rightarrow> ((Some e, st1), w1))"
proof (induction xs arbitrary: st w)
  case Nil
  show ?case by simp
next
  case (Cons d xs)
  show ?case
  proof (cases "draftTitleOf d = []")
    case True
    with Cons show ?thesis by simp
  next
    case False
    obtain r1 w1 where f: "retry (request (issues_listForRepo None)) 3 1000 ''checkExistingIssues'' w = (r1, w1)"
      by (cases "retry (request (issues_listForRepo None)) 3 1000 ''checkExistingIssues'' w")
    show ?thesis
    proof (cases r1)
      case (Inl e)
      with False f show ?thesis by (simp add: Let_def)
    next
      case (Inr ex)
      show ?thesis
      proof (cases "issueExists lc ex (draftTitleOf d)")
        case True
        with False f Inr Cons show ?thesis by (simp add: Let_def)
      next
        case ne: False
        obtain st2 w2 where c: "createSubIssue n p (draftTitleOf d) st w1 = (st2, w2)"
          by (cases "createSubIssue n p (draftTitleOf d) st w1")
        with False f Inr ne Cons show ?thesis by (simp add: Let_def)
      qed
    qed
  qed
qed

lemma draftLoop_calm:
  assumes "calm (outcomes w)" and "list_ex (\<lambda>i. number i = n) (issues (tracker w))"
  shows "\<exists>stM wM new. draftLoop lc n p ds st w = ((None, stM), wM) \<and> calm (outcomes wM)
           \<and> issues (tracker wM) = new @ issues (tracker w)"
  using assms
proof (induction ds arbitrary: st w)
  case Nil
  then show ?case by simp
next
  case (Cons d ds)
  show ?case
  proof (cases "draftTitleOf d = []")
    case True
    with Cons.IH [OF Cons.prems, of st] show ?thesis by simp
  next
    case False
    from draftLoop_calm_step [OF Cons.prems False, of lc p st]
    obtain w1 where c1: "calm (outcomes w1)"
      and i: "if issueExists lc (filter state_open (issues (tracker w))) (draftTitleOf d)
        then (\<forall>rest. draftLoop lc n p (d # rest) st w
                      = draftLoop lc n p rest (st\<lparr>existed := existed st + 1\<rparr>) w1)
             \<and> tracker w1 = tracker w
        else (\<forall>rest. draftLoop lc n p (d # rest) st w
                      = draftLoop lc n p rest (st\<lparr>created := created st + 1\<rparr>) w1)
             \<and> issues (tracker w1) =
                 opened_issue (tracker w) (draftTitleOf d)
                   (subIssueBody (getCurrentDateUTC w) n (html_url p) (draftTitleOf d))
                   [SUB_ISSUE_LABEL] # issues (tracker w)
             \<and> (\<exists>c. comments (tracker w1) = comments (tracker w) @ [c] \<and> comment_issue c = n
                    \<and> comment_body c = referenceCommentBody (draftTitleOf d)
                                           (fresh_number (tracker w)))
             \<and> list_ex (\<lambda>i. number i = n) (issues (tracker w1))"
      by blast
    have "\<exists>st1 new1. draftLoop lc n p (d # ds) st w = draftLoop lc n p ds st1 w1
            \<and> issues (tracker w1) = new1 @ issues (tracker w)"
    proof (cases "issueExists lc (filter state_open (issues (tracker w))) (draftTitleOf d)")
      case True
      with i have "\<forall>rest. draftLoop lc n p (d # rest) st w
                      = draftLoop lc n p rest (st\<lparr>existed := existed st + 1\<rparr>) w1"
        and "issues (tracker w1) = [] @ issues (tracker w)" by (simp_all del: draftLoop.simps)
      then show ?thesis by blast
    next
      case False
      with i have "\<forall>rest. draftLoop lc n p (d # rest) st w
                      = draftLoop lc n p rest (st\<lparr>created := created st + 1\<rparr>) w1"
        and "issues (tracker w1) =
                 [opened_issue (tracker w) (draftTitleOf d)
                   (subIssueBody (getCurrentDateUTC w) n (html_url p) (draftTitleOf d))
                   [SUB_ISSUE_LABEL]] @ issues (tracker w)" by (simp_all del: draftLoop.simps)
      then show ?thesis by blast
    qed
    then obtain st1 new1 where "draftLoop lc n p (d # ds) st w = draftLoop lc n p ds st1 w1"
      "issues (tracker w1) = new1 @ issues (tracker w)" by blast
    note w1 = c1 this
    from Cons.prems(2) w1(3) have "list_ex (\<lambda>i. number i = n) (issues (tracker w1))" by simp
    from Cons.IH [OF w1(1) this, of st1]
    obtain stM wM new where "draftLoop lc n p ds st1 w1 = ((None, stM), wM)" "calm (outcomes wM)"
      "issues (tracker wM) = new @ issues (tracker w1)" by blast
    with w1 have "draftLoop lc n p (d # ds) st w = ((None, stM), wM)" "calm (outcomes wM)"
      "issues (tracker wM) = (new @ new1) @ issues (tracker w)" by simp_all
    then show ?thesis by blast
  qed
qed

lemma later_duplicate_existed:
  assumes run: "draftLoop lc n parent (d1 # mid @ d2 # rest) st w = ((err, st'), w')"
    and c: "calm (outcomes w)"
    and p: "list_ex (\<lambda>i. number i = n) (issues (tracker w))"
    and t: "draftTitleOf d1 \<noteq> []" "draftTitleOf d2 \<noteq> []"
    and fresh: "\<not> (\<exists>a \<in> set (issues (tracker w)). state_open a
                     \<and> (lc (title a) = lc (draftTitleOf d1)
                        \<or> includes_str (lc (title a)) (lc (draftTitleOf d1))))"
    and dup: "lc (draftTitleOf d1) = lc (draftTitleOf d2)
               \<or> includes_str (lc (draftTitleOf d1)) (lc (draftTitleOf d2))"
  shows "\<exists>b w1 stM wM w2.
           issues (tracker w1) = b # issues (tracker w) \<and> title b = draftTitleOf d1
         \<and> draftLoop lc n parent mid (st\<lparr>created := created st + 1\<rparr>) w1 = ((None, stM), wM)
         \<and> tracker w2 = tracker wM
         \<and> draftLoop lc n parent rest (stM\<lparr>existed := existed stM + 1\<rparr>) w2 = ((err, st'), w')"
proof -
  let ?b = "opened_issue (tracker w) (draftTitleOf d1)
                   (subIssueBody (getCurrentDateUTC w) n (html_url parent) (draftTitleOf d1))
                   [SUB_ISSUE_LABEL]"
  let ?st1 = "st\<lparr>created := created st + 1\<rparr>"
  from fresh have ne: "\<not> issueExists lc (filter state_open (issues (tracker w))) (draftTitleOf d1)"
    unfolding issueExists_iff by blast
  from draftLoop_calm_step [OF c p t(1), of lc parent st] ne
  obtain w1 where w1a: "calm (outcomes w1)"
    "\<forall>rest. draftLoop lc n parent (d1 # rest) st w = draftLoop lc n parent rest ?st1 w1"
    "issues (tracker w1) = ?b # issues (tracker w)"
    "list_ex (\<lambda>i. number i = n) (issues (tracker w1))" by (auto simp del: draftLoop.simps)
  note w1 = w1a(1) w1a(2) [rule_format, of "mid @ d2 # rest"] w1a(3,4)
  from draftLoop_calm [OF w1(1) w1(4), of lc parent mid ?st1]
  obtain stM wM new where m: "draftLoop lc n parent mid ?st1 w1 = ((None, stM), wM)" "calm (outcomes wM)"
    "issues (tracker wM) = new @ issues (tracker w1)" by blast
  have s2: "draftLoop lc n parent (mid @ d2 # rest) ?st1 w1 = draftLoop lc n parent (d2 # rest) stM wM"
    by (simp only: draftLoop_append m(1) prod.case option.case)
  have "?b \<in> set (issues (tracker wM))" using m(3) w1(3) by simp
  moreover have "state_open ?b \<and> (lc (title ?b) = lc (draftTitleOf d2)
               \<or> includes_str (lc (title ?b)) (lc (draftTitleOf d2)))"
    using dup by (simp add: opened_issue_def)
  ultimately have ex: "issueExists lc (filter state_open (issues (tracker wM))) (draftTitleOf d2)"
    unfolding issueExists_iff by blast
  from p m(3) w1(3) have pM: "list_ex (\<lambda>i. number i = n) (issues (tracker wM))" by simp
  from draftLoop_calm_step [OF m(2) pM t(2), of lc parent stM] ex
  obtain w2 where w2a: "\<forall>rest. draftLoop lc n parent (d2 # rest) stM wM
               = draftLoop lc n parent rest (stM\<lparr>existed := existed stM + 1\<rparr>) w2"
    "tracker w2 = tracker wM" by (auto simp del: draftLoop.simps)
  note w2 = w2a(1) [rule_format, of rest] w2a(2)
  from run w1(2) s2 w2(1)
  have "draftLoop lc n parent rest (stM\<lparr>existed := existed stM + 1\<rparr>) w2 = ((err, st'), w')" by simp
  moreover have "title ?b = draftTitleOf d1" by (simp add: opened_issue_def)
  ultimately show ?thesis using w1(3) m(1) w2(2) by blast
qed

lemma later_duplicate_existed_after:
  assumes run: "draftLoop lc n parent (pre @ d1 # mid @ d2 # rest) st w = ((err, st'), w')"
    and c: "calm (outcomes w)"
    and p: "list_ex (\<lambda>i. number i = n) (issues (tracker w))"
    and before: "draftLoop lc n parent pre st w = ((None, stA), wA)"
    and t: "draftTitleOf d1 \<noteq> []" "draftTitleOf d2 \<noteq> []"
    and fresh: "\<not> (\<exists>a \<in> set (issues (tracker wA)). state_open a
                     \<and> (lc (title a) = lc (draftTitleOf d1)
                        \<or> includes_str (lc (title a)) (lc (draftTitleOf d1))))"
    and dup: "lc (draftTitleOf d1) = lc (draftTitleOf d2)
               \<or> includes_str (lc (draftTitleOf d1)) (lc (draftTitleOf d2))"
  shows "\<exists>b w1 stM wM w2.
           issues (tracker w1) = b # issues (tracker wA) \<and> title b = draftTitleOf d1
         \<and> draftLoop lc n parent mid (stA\<lparr>created := created stA + 1\<rparr>) w1 = ((None, stM), wM)
         \<and> tracker w2 = tracker wM
         \<and> draftLoop lc n parent rest (stM\<lparr>existed := existed stM + 1\<rparr>) w2 = ((err, st'), w')"
proof -
  from draftLoop_calm [OF c p, of lc parent pre st] before
  obtain new where a: "calm (outcomes wA)" "issues (tracker wA) = new @ issues (tracker w)" by auto
  from p a(2) have pA: "list_ex (\<lambda>i. number i = n) (issues (tracker wA))" by simp
  have "draftLoop lc n parent (pre @ d1 # mid @ d2 # rest) st w
          = draftLoop lc n parent (d1 # mid @ d2 # rest) stA wA"
    by (simp only: draftLoop_append before prod.case option.case)
  with run have "draftLoop lc n parent (d1 # mid @ d2 # rest) stA wA = ((err, st'), w')" by simp
  from later_duplicate_existed [OF this a(1) pA t fresh dup] show ?thesis .
qed

lemma processDrafts_try_processed:
  assumes run: "processDrafts_try lc n st w = ((err, st'), w')"
  shows "processed st' =
           (case find (\<lambda>i. number i = n) (issues (tracker w)) of
              None \<Rightarrow> processed st
            | Some parent \<Rightarrow>
                (case draftsContentOf (case body parent of None \<Rightarrow> [] | Some b \<Rightarrow> b) of
                   None \<Rightarrow> processed st
                 | Some c \<Rightarrow>
                     if c = [] \<or> includes_str c PLACEHOLDER \<or> exhausted (outcomes w)
                        \<or> exhausted (after_retry (outcomes w))
                     then processed st else length (draftLinesOf c)))"
proof (cases "find (\<lambda>i. number i = n) (issues (tracker w))")
  case None
  obtain r1 w1 where g: "retry (request (issues_get n)) 3 1000 ''getIssue'' w = (r1, w1)"
    by (cases "retry (request (issues_get n)) 3 1000 ''getIssue'' w")
  from getIssue_cases [OF g] None obtain e where "r1 = Inl e" by auto
  with run g have "st' = st" by (simp add: processDrafts_try_def)
  with None show ?thesis by simp
next
  case (Some parent)
  then have "issues_get n (tracker w) = Inr (parent, tracker w)" by (simp add: issues_get_def)
  from retry_script [where call = "issues_get n" and d = 1000 and name = "''getIssue''", OF this]
  obtain w1 where w1: "retry (request (issues_get n)) 3 1000 ''getIssue'' w
        = (if exhausted (outcomes w) then Inl (RequestError 500) else Inr parent, w1)"
    "outcomes w1 = after_retry (outcomes w)" "tracker w1 = tracker w"
    by (auto split: if_splits)
  show ?thesis
  proof (cases "exhausted (outcomes w)")
    case True
    with run w1 have "st' = st" by (simp add: processDrafts_try_def)
    with Some True show ?thesis by (simp split: option.splits)
  next
    case ne1: False
    show ?thesis
    proof (cases "draftsContentOf (case body parent of None \<Rightarrow> [] | Some b \<Rightarrow> b)")
      case None
      with run w1 ne1 have "st' = st" by (simp add: processDrafts_try_def)
      with Some None show ?thesis by simp
    next
      case c: (Some c)
      show ?thesis
      proof (cases "c = [] \<or> includes_str c PLACEHOLDER")
        case True
        with run w1 ne1 c have "st' = st" by (auto simp: processDrafts_try_def)
        with Some c True show ?thesis by auto
      next
        case ok: False
        let ?cs = "filter (\<lambda>c. comment_issue c = n) (comments (tracker w))"
        have "issues_listComments n (tracker w1) = Inr (?cs, tracker w1)"
          by (simp add: issues_listComments_def w1(3))
        from retry_script [where call = "issues_listComments n" and d = 1000
            and name = "''listComments''", OF this]
        obtain w2 where w2: "retry (request (issues_listComments n)) 3 1000 ''listComments'' w1
              = (if exhausted (outcomes w1) then Inl (RequestError 500) else Inr ?cs, w2)"
          by (auto split: if_splits)
        show ?thesis
        proof (cases "exhausted (after_retry (outcomes w))")
          case True
          with run w1 ne1 c ok w2 have "st' = st" by (auto simp: processDrafts_try_def)
          with Some c ok True show ?thesis by auto
        next
          case ne2: False
          let ?lines = "draftLinesOf c"
          let ?st1 = "st\<lparr>processed := length ?lines\<rparr>"
          have "processed st' = length ?lines"
          proof (cases "?lines = []")
            case True
            with run w1 ne1 c ok w2 ne2 show ?thesis by (auto simp: processDrafts_try_def Let_def)
          next
            case lines: False
            show ?thesis
            proof (cases "find isConfirmation ?cs")
              case None
              obtain r3 w3 where cc: "retry (request (issues_createComment n (confirmationBody ?lines)))
                   3 1500 ''createConfirmationComment'' w2 = (r3, w3)"
                by (cases "retry (request (issues_createComment n (confirmationBody ?lines)))
                   3 1500 ''createConfirmationComment'' w2")
              from run w1 ne1 c ok w2 ne2 lines None cc show ?thesis
                by (auto simp: processDrafts_try_def Let_def split: sum.splits)
            next
              case (Some cf)
              obtain r3 w3 where lr: "retry (request (reactions_listForIssueComment (comment_id cf)))
                   3 1000 ''listReactions'' w2 = (r3, w3)"
                by (cases "retry (request (reactions_listForIssueComment (comment_id cf)))
                   3 1000 ''listReactions'' w2")
              show ?thesis
              proof (cases r3)
                case (Inl e)
                with run w1 ne1 c ok w2 ne2 lines Some lr show ?thesis
                  by (auto simp: processDrafts_try_def Let_def)
              next
                case (Inr rs)
                show ?thesis
                proof (cases "hasThumbsUp rs")
                  case False
                  with run w1 ne1 c ok w2 ne2 lines Some lr Inr show ?thesis
                    by (auto simp: processDrafts_try_def Let_def)
                next
                  case True
                  with run w1 ne1 c ok w2 ne2 lines Some lr Inr
                  have "draftLoop lc n parent ?lines ?st1 w3 = ((err, st'), w')"
                    by (auto simp: processDrafts_try_def Let_def)
                  from draftLoop_stats [OF this] show ?thesis by simp
                qed
              qed
            qed
          qed
          with \<open>find (\<lambda>i. number i = n) (issues (tracker w)) = Some parent\<close> c ok ne1 ne2
          show ?thesis by auto
        qed
      qed
    qed
  qed
qed


lemma template_region:
  "draftsContentOf (dailyIssueBody (js ''Task Status 2025-01-02'') (js ''2025-01-02''))
     = Some template_comment"
  by (simp add: dailyIssueBody_def draftsContentOf_def template_comment_def str_eval)

lemma template_comment_placeholder: "includes_str template_comment PLACEHOLDER"
  by (simp add: template_comment_def str_eval)

text \<open>
  C8. When the drafts region of the issue's body is empty after trimming, or contains the
  placeholder comment of the template, a configured \<open>processDrafts\<close> returns the statistics
  0, 0, 0 and leaves the tracker untouched: no comment is posted, no issue is created. The
  placeholder comment alone holds no draft line.
\<close>

theorem placeholder_suppression:
  assumes "truthy (TARGET_REPO_OWNER cfg)" and "truthy (TARGET_REPO_NAME cfg)"
    and "truthy (GITHUB_TOKEN cfg)" and "n \<noteq> 0"
    and "find (\<lambda>i. number i = n) (issues (tracker w)) = Some parent"
    and "draftsContentOf (case body parent of None \<Rightarrow> [] | Some b \<Rightarrow> b) = Some c"
    and "c = [] \<or> includes_str c PLACEHOLDER"
  shows "fst (processDrafts lc cfg (Some n) w) = Inr \<lparr>processed = 0, created = 0, existed = 0\<rparr>
         \<and> tracker (snd (processDrafts lc cfg (Some n) w)) = tracker w
         \<and> draftLinesOf template_comment = []"
proof -
  let ?z = "\<lparr>processed = 0, created = 0, existed = 0\<rparr>"
  obtain err st' w' where r: "processDrafts_try lc n ?z w = ((err, st'), w')"
    by (cases "processDrafts_try lc n ?z w") auto
  from processDrafts_try_nothing_authored [OF r assms(5-7)]
  have "st' = ?z" "tracker w' = tracker w" by auto
  moreover have "draftLinesOf template_comment = []"
    by (simp add: draftLinesOf_def template_comment_def str_eval)
  ultimately show ?thesis
    using r by (simp add: processDrafts_configured [OF assms(1-4)])
qed

theorem placeholder_suppression_witness:
  "fst (processDrafts toLowerCase_ascii example_config (Some 1)
          (example_world (dailyIssueBody (js ''Task Status 2025-01-02'') (js ''2025-01-02'')) [] [] []))
     = Inr \<lparr>processed = 0, created = 0, existed = 0\<rparr>"
proof -
  let ?b = "dailyIssueBody (js ''Task Status 2025-01-02'') (js ''2025-01-02'')"
  have 1: "truthy (TARGET_REPO_OWNER example_config)" "truthy (TARGET_REPO_NAME example_config)"
    "truthy (GITHUB_TOKEN example_config)" "(1::nat) \<noteq> 0"
    by (simp_all add: example_config_def truthy_def js_def)
  have 2: "find (\<lambda>i. number i = 1) (issues (tracker (example_world ?b [] [] []))) = Some (example_issue ?b)"
    by (simp add: example_world_def example_issue_def)
  have 3: "draftsContentOf (case body (example_issue ?b) of None \<Rightarrow> [] | Some b \<Rightarrow> b) = Some template_comment"
    by (simp add: example_issue_def template_region)
  have 4: "template_comment = [] \<or> includes_str template_comment PLACEHOLDER"
    by (simp add: template_comment_placeholder)
  from placeholder_suppression [OF 1 2 3 4] show ?thesis by simp
qed


lemmas run_eval = processDrafts_def processDrafts_try_def createSubIssue_def initializeOctokit_def
  truthy_def retry_def request_def issues_get_def issues_listComments_def issues_createComment_def
  issues_create_def issues_listForRepo_def reactions_listForIssueComment_def opened_issue_def
  posted_comment_def fresh_number_def fresh_comment_id_def draftsContentOf_def draftLinesOf_def
  draftTitleOf_def isConfirmation_def hasThumbsUp_def issueExists_def getCurrentDateUTC_def
  CONFIRMATION_MARKER_def example_config_def example_world_def example_issue_def numeral_3_eq_3 Let_def

lemma example_config_ok:
  "truthy (TARGET_REPO_OWNER example_config)" "truthy (TARGET_REPO_NAME example_config)"
  "truthy (GITHUB_TOKEN example_config)"
  by (simp_all add: example_config_def truthy_def js_def)

text \<open>
  C2. A run of \<open>processDrafts\<close> changes the list of issues only if a comment on the issue
  holds the marker phrase, is authored by a \<^verbatim>\<open>Bot\<close>, and carries a \<^verbatim>\<open>+1\<close> reaction. When
  the confirmation comment the run finds carries no such reaction, a configured run returns
  statistics with nothing created and nothing existed and leaves the tracker as it was.
\<close>

theorem approval_gate:
  assumes run: "processDrafts lc cfg issueNumber w = (r, w')"
  shows "(issues (tracker w') \<noteq> issues (tracker w) \<longrightarrow>
            (\<exists>n c. issueNumber = Some n \<and> c \<in> set (comments (tracker w)) \<and> comment_issue c = n
               \<and> includes_str (comment_body c) CONFIRMATION_MARKER \<and> user_type c = js ''Bot''
               \<and> (\<exists>x \<in> set (reactions (tracker w)).
                     reaction_comment x = comment_id c \<and> content x = js ''+1'')))
       \<and> (\<forall>n c. truthy (TARGET_REPO_OWNER cfg) \<and> truthy (TARGET_REPO_NAME cfg)
                 \<and> truthy (GITHUB_TOKEN cfg) \<and> issueNumber = Some n \<and> n \<noteq> 0
                 \<and> find (\<lambda>c. includes_str (comment_body c) CONFIRMATION_MARKER \<and> user_type c = js ''Bot'')
                      (filter (\<lambda>c. comment_issue c = n) (comments (tracker w))) = Some c
                 \<and> \<not> (\<exists>x \<in> set (reactions (tracker w)).
                          reaction_comment x = comment_id c \<and> content x = js ''+1'')
              \<longrightarrow> tracker w' = tracker w
                  \<and> (\<exists>st. r = Inr st \<and> created st = 0 \<and> existed st = 0))"
proof -
  let ?z = "\<lparr>processed = 0, created = 0, existed = 0\<rparr>"
  have part1: "\<exists>n c. issueNumber = Some n \<and> c \<in> set (comments (tracker w)) \<and> comment_issue c = n
               \<and> includes_str (comment_body c) CONFIRMATION_MARKER \<and> user_type c = js ''Bot''
               \<and> (\<exists>x \<in> set (reactions (tracker w)).
                     reaction_comment x = comment_id c \<and> content x = js ''+1'')"
    if ch: "issues (tracker w') \<noteq> issues (tracker w)"
  proof -
  from ch run obtain n where n: "issueNumber = Some n" "n \<noteq> 0"
    and t: "processDrafts_try lc n ?z w = ((fst (fst (processDrafts_try lc n ?z w)), snd (fst (processDrafts_try lc n ?z w))), w')"
    by (cases issueNumber)
       (auto simp: processDrafts_def split: if_splits option.splits sum.splits prod.splits)
  from processDrafts_try_classes [OF t] ch
  obtain cc where cc: "find isConfirmation (filter (\<lambda>c. comment_issue c = n) (comments (tracker w))) = Some cc"
    and th: "hasThumbsUp (filter (\<lambda>r. reaction_comment r = comment_id cc) (reactions (tracker w)))"
    by auto
  from find_in_set [OF cc] have "cc \<in> set (comments (tracker w))" "comment_issue cc = n"
    "includes_str (comment_body cc) CONFIRMATION_MARKER" "user_type cc = js ''Bot''"
    by (auto simp: isConfirmation_def)
  moreover from th have "\<exists>x \<in> set (reactions (tracker w)).
                     reaction_comment x = comment_id cc \<and> content x = js ''+1''"
    by (auto simp: hasThumbsUp_def list_ex_iff)
  ultimately show ?thesis
    using n by blast
  qed
  have part2: "tracker w' = tracker w \<and> (\<exists>st. r = Inr st \<and> created st = 0 \<and> existed st = 0)"
    if a: "truthy (TARGET_REPO_OWNER cfg) \<and> truthy (TARGET_REPO_NAME cfg)
                 \<and> truthy (GITHUB_TOKEN cfg) \<and> issueNumber = Some n \<and> n \<noteq> 0
                 \<and> find (\<lambda>c. includes_str (comment_body c) CONFIRMATION_MARKER \<and> user_type c = js ''Bot'')
                      (filter (\<lambda>c. comment_issue c = n) (comments (tracker w))) = Some c
                 \<and> \<not> (\<exists>x \<in> set (reactions (tracker w)).
                          reaction_comment x = comment_id c \<and> content x = js ''+1'')" for n c
  proof -
  obtain err st' w1 where t: "processDrafts_try lc n ?z w = ((err, st'), w1)"
    by (cases "processDrafts_try lc n ?z w") auto
  from a have cfg: "truthy (TARGET_REPO_OWNER cfg)" "truthy (TARGET_REPO_NAME cfg)"
    "truthy (GITHUB_TOKEN cfg)" "n \<noteq> 0" by auto
  from run a t have r: "r = Inr st'" "w' = w1"
    by (simp_all add: processDrafts_configured [OF cfg])
  from a have f: "find isConfirmation (filter (\<lambda>c. comment_issue c = n) (comments (tracker w))) = Some c"
    by (simp add: isConfirmation_def [abs_def])
  from a have nt: "\<not> hasThumbsUp (filter (\<lambda>r. reaction_comment r = comment_id c) (reactions (tracker w)))"
    by (auto simp: hasThumbsUp_def list_ex_iff)
  from processDrafts_try_classes [OF t] f nt
  have "tracker w1 = tracker w \<and> created st' = 0 \<and> existed st' = 0" by auto
  with r show ?thesis by simp
  qed
  from part1 part2 show ?thesis by blast
qed


theorem approval_gate_witness:
  "tracker (snd (processDrafts toLowerCase_ascii example_config (Some 1) awaiting_world)) = tracker awaiting_world
   \<and> (\<exists>st. fst (processDrafts toLowerCase_ascii example_config (Some 1) awaiting_world) = Inr st
          \<and> created st = 0 \<and> existed st = 0)"
proof -
  let ?c = "\<lparr>comment_id = 7, comment_issue = 1, comment_body = CONFIRMATION_MARKER,
         comment_html_url = [], user_type = js ''Bot''\<rparr>"
  have f: "find (\<lambda>c. includes_str (comment_body c) CONFIRMATION_MARKER \<and> user_type c = js ''Bot'')
             (filter (\<lambda>c. comment_issue c = 1) (comments (tracker awaiting_world))) = Some ?c"
    by (simp add: awaiting_world_def example_world_def CONFIRMATION_MARKER_def str_eval)
  have n: "\<not> (\<exists>x \<in> set (reactions (tracker awaiting_world)).
                reaction_comment x = comment_id ?c \<and> content x = js ''+1'')"
    by (simp add: awaiting_world_def example_world_def)
  from approval_gate [of toLowerCase_ascii example_config "Some 1" awaiting_world
      "fst (processDrafts toLowerCase_ascii example_config (Some 1) awaiting_world)"
      "snd (processDrafts toLowerCase_ascii example_config (Some 1) awaiting_world)"] example_config_ok f n
  show ?thesis by auto
qed

text \<open>
  C10, as amended. With the repository, the token and a non-zero issue number configured,
  \<open>processDrafts\<close> always returns statistics, whatever requests fail; in them
  \<open>created + existed \<le> processed\<close>, and \<open>processed\<close> is the number of draft lines of the
  issue's drafts region when the issue is in the tracker, its region is found, non-empty and
  free of the placeholder text, and neither the fetch of the issue nor the fetch of its
  comments is exhausted; it is 0 in every other case. A request failing later than those two
  leaves the count of lines in place.
\<close>

theorem processDrafts_returns_statistics:
  assumes "truthy (TARGET_REPO_OWNER cfg)" and "truthy (TARGET_REPO_NAME cfg)"
    and "truthy (GITHUB_TOKEN cfg)" and "n \<noteq> 0"
  shows "\<exists>st. fst (processDrafts lc cfg (Some n) w) = Inr st
           \<and> created st + existed st \<le> processed st
           \<and> processed st =
               (case find (\<lambda>i. number i = n) (issues (tracker w)) of
                  None \<Rightarrow> 0
                | Some parent \<Rightarrow>
                    (case draftsContentOf (case body parent of None \<Rightarrow> [] | Some b \<Rightarrow> b) of
                       None \<Rightarrow> 0
                     | Some c \<Rightarrow>
                         if c = [] \<or> includes_str c PLACEHOLDER \<or> exhausted (outcomes w)
                            \<or> exhausted (after_retry (outcomes w))
                         then 0 else length (draftLinesOf c)))"
proof -
  let ?z = "\<lparr>processed = 0, created = 0, existed = 0\<rparr>"
  obtain err st' w' where r: "processDrafts_try lc n ?z w = ((err, st'), w')"
    by (cases "processDrafts_try lc n ?z w") auto
  have f: "fst (processDrafts lc cfg (Some n) w) = Inr st'"
    using r by (simp add: processDrafts_configured [OF assms])
  have c: "created st' + existed st' \<le> processed st'"
    using processDrafts_try_classes [OF r]
    by (elim disjE exE conjE) (auto dest!: draftLoop_stats)
  have p: "processed st' =
               (case find (\<lambda>i. number i = n) (issues (tracker w)) of
                  None \<Rightarrow> 0
                | Some parent \<Rightarrow>
                    (case draftsContentOf (case body parent of None \<Rightarrow> [] | Some b \<Rightarrow> b) of
                       None \<Rightarrow> 0
                     | Some c \<Rightarrow>
                         if c = [] \<or> includes_str c PLACEHOLDER \<or> exhausted (outcomes w)
                            \<or> exhausted (after_retry (outcomes w))
                         then 0 else length (draftLinesOf c)))"
    using processDrafts_try_processed [OF r] by (simp cong: option.case_cong if_cong)
  from f c p show ?thesis by (intro exI [of _ st'] conjI)
qed

theorem processDrafts_returns_statistics_witness:
  "\<exists>st. fst (processDrafts toLowerCase_ascii example_config (Some 1)
                (approved_world [False, False, True, True, True])) = Inr st
         \<and> created st + existed st \<le> processed st \<and> processed st = 2"
proof -
  let ?w = "approved_world [False, False, True, True, True]"
  have e: "(case find (\<lambda>i. number i = 1) (issues (tracker ?w)) of
                  None \<Rightarrow> 0
                | Some parent \<Rightarrow>
                    (case draftsContentOf (case body parent of None \<Rightarrow> [] | Some b \<Rightarrow> b) of
                       None \<Rightarrow> 0
                     | Some c \<Rightarrow>
                         if c = [] \<or> includes_str c PLACEHOLDER \<or> exhausted (outcomes ?w)
                            \<or> exhausted (after_retry (outcomes ?w))
                         then 0 else length (draftLinesOf c))) = (2 :: nat)"
    by (simp add: approved_world_def exhausted_def after_retry_def run_eval str_eval)
  from processDrafts_returns_statistics [of example_config 1 toLowerCase_ascii ?w]
    example_config_ok
  show ?thesis unfolding e by simp
qed

text \<open>
  The claim as stated fails where the token is missing: the client is created after the two
  precondition checks and outside the \<^verbatim>\<open>try\<close>, so its error leaves the function.
\<close>

theorem processDrafts_throws_without_token:
  "truthy (TARGET_REPO_OWNER (example_config\<lparr>GITHUB_TOKEN := None\<rparr>))
   \<and> truthy (TARGET_REPO_NAME (example_config\<lparr>GITHUB_TOKEN := None\<rparr>))
   \<and> fst (processDrafts toLowerCase_ascii (example_config\<lparr>GITHUB_TOKEN := None\<rparr>) (Some 1) (approved_world []))
       = Inl (Error ''GITHUB_TOKEN is not set in environment variables.'')"
  by (simp add: processDrafts_def initializeOctokit_def truthy_def example_config_def js_def)

text \<open>
  And where the first request is rejected three times, the statistics returned count no
  line although the drafts region holds two; where it is the third request that is rejected
  three times, they count both lines.
\<close>

lemma statistics_after_fault:
  "fst (processDrafts toLowerCase_ascii example_config (Some 1) (approved_world [True, True, True]))
     = Inr \<lparr>processed = 0, created = 0, existed = 0\<rparr>"
  "fst (processDrafts toLowerCase_ascii example_config (Some 1)
          (approved_world [False, False, True, True, True]))
     = Inr \<lparr>processed = 2, created = 0, existed = 0\<rparr>"
  by (simp_all add: approved_world_def run_eval str_eval)


text \<open>
  C7. Where the section header first occurs after \<open>pre\<close> and the text after it is
  \<open>region\<close> followed by the next \<^verbatim>\<open>##\<close> (or by the end of the body), the drafts region is
  \<open>region\<close> trimmed. Its draft lines are exactly the trimmed lines, in order, that consist
  of a bullet (\<^verbatim>\<open>-\<close>, \<^verbatim>\<open>*\<close>) or an ordinal (digits and a full stop), white space and some
  text; the lines are the pieces between line feeds. For the text
  \<^verbatim>\<open>- Do A\n- Do B\n## Next\<close> after the header, and whatever follows it, the draft items are
  \<^verbatim>\<open>Do A\<close> and \<^verbatim>\<open>Do B\<close>.
\<close>

theorem draft_extraction:
  assumes "\<not> includes_str (pre @ butlast DRAFT_SECTION_HEADER) DRAFT_SECTION_HEADER"
    and "(rest = [] \<and> \<not> includes_str region (js ''##''))
         \<or> ((\<exists>r. rest = js ''##'' @ r) \<and> \<not> includes_str (region @ js ''#'') (js ''##''))"
  shows "draftsContentOf (pre @ DRAFT_SECTION_HEADER @ region @ rest) = Some (trim region)
    \<and> draftLinesOf (trim region) =
        filter (\<lambda>l. \<exists>m ws tx. l = m @ ws @ tx
                  \<and> (m = js ''-'' \<or> m = js ''*''
                     \<or> (\<exists>ds. ds \<noteq> [] \<and> (\<forall>d \<in> set ds. isDigit d) \<and> m = ds @ js ''.''))
                  \<and> ws \<noteq> [] \<and> (\<forall>c \<in> set ws. isWhiteSpace c)
                  \<and> tx \<noteq> [] \<and> \<not> isLineTerminator (hd tx))
          (map trim (split_str 0x0A (trim region)))
    \<and> join_str [0x0A] (split_str 0x0A (trim region)) = trim region
    \<and> (\<forall>l \<in> set (split_str 0x0A (trim region)). 0x0A \<notin> set l)
    \<and> (\<forall>tail. draftsContentOf (pre @ DRAFT_SECTION_HEADER
                  @ (js ''- Do A'' @ [0x0A] @ js ''- Do B'' @ [0x0A] @ js ''## Next'') @ tail)
               = Some (js ''- Do A'' @ [0x0A] @ js ''- Do B''))
    \<and> map draftTitleOf (draftLinesOf (js ''- Do A'' @ [0x0A] @ js ''- Do B'')) = [js ''Do A'', js ''Do B'']"
proof -
  have 1: "draftsContentOf (pre @ DRAFT_SECTION_HEADER @ region @ rest) = Some (trim region)"
    by (rule draftsContentOf_region [OF assms])
  have 2: "draftLinesOf (trim region) =
        filter (\<lambda>l. \<exists>m ws tx. l = m @ ws @ tx
                  \<and> (m = js ''-'' \<or> m = js ''*''
                     \<or> (\<exists>ds. ds \<noteq> [] \<and> (\<forall>d \<in> set ds. isDigit d) \<and> m = ds @ js ''.''))
                  \<and> ws \<noteq> [] \<and> (\<forall>c \<in> set ws. isWhiteSpace c)
                  \<and> tx \<noteq> [] \<and> \<not> isLineTerminator (hd tx))
          (map trim (split_str 0x0A (trim region)))"
    unfolding draftLinesOf_def by (rule filter_cong) (simp_all add: matchesDraftLine_iff)
  have 3: "join_str [0x0A] (split_str 0x0A (trim region)) = trim region"
    by (rule join_split_str)
  have 4: "\<forall>l \<in> set (split_str 0x0A (trim region)). 0x0A \<notin> set l"
    using split_str_no_sep by blast
  have 5: "draftsContentOf (pre @ DRAFT_SECTION_HEADER
                  @ (js ''- Do A'' @ [0x0A] @ js ''- Do B'' @ [0x0A] @ js ''## Next'') @ tail)
               = Some (js ''- Do A'' @ [0x0A] @ js ''- Do B'')" for tail
  proof -
    let ?region = "js ''- Do A'' @ [0x0A] @ js ''- Do B'' @ [0x0A]"
    have a: "(js ''- Do A'' @ [0x0A] @ js ''- Do B'' @ [0x0A] @ js ''## Next'') @ tail
               = ?region @ (js ''##'' @ (js '' Next'' @ tail))"
      by (simp add: js_def)
    have b: "\<not> includes_str (?region @ js ''#'') (js ''##'')" by (simp add: str_eval)
    have c: "trim ?region = js ''- Do A'' @ [0x0A] @ js ''- Do B''" by (simp add: str_eval)
    from draftsContentOf_region [OF assms(1), of "js ''##'' @ (js '' Next'' @ tail)" ?region] b
    have "draftsContentOf (pre @ DRAFT_SECTION_HEADER @ ?region @ (js ''##'' @ (js '' Next'' @ tail)))
            = Some (trim ?region)" by blast
    with a c show ?thesis by simp
  qed
  have 6: "map draftTitleOf (draftLinesOf (js ''- Do A'' @ [0x0A] @ js ''- Do B'')) = [js ''Do A'', js ''Do B'']"
    by (simp add: draftLinesOf_def draftTitleOf_def str_eval)
  from 1 2 3 4 5 6 show ?thesis by blast
qed

theorem draft_extraction_witness:
  "draftsContentOf (js ''# Notes'' @ [0x0A] @ DRAFT_SECTION_HEADER @ ([0x0A] @ js ''1. Do C'' @ [0x0A]) @ js ''## Next'')
     = Some (trim ([0x0A] @ js ''1. Do C'' @ [0x0A]))
   \<and> draftsContentOf ((js ''# Notes'' @ [0x0A]) @ DRAFT_SECTION_HEADER
        @ (js ''- Do A'' @ [0x0A] @ js ''- Do B'' @ [0x0A] @ js ''## Next'') @ js ''later'')
      = Some (js ''- Do A'' @ [0x0A] @ js ''- Do B'')"
proof -
  have 1: "\<not> includes_str ((js ''# Notes'' @ [0x0A]) @ butlast DRAFT_SECTION_HEADER) DRAFT_SECTION_HEADER"
    by (simp add: str_eval)
  have 2: "(js ''## Next'' = [] \<and> \<not> includes_str ([0x0A] @ js ''1. Do C'' @ [0x0A]) (js ''##''))
         \<or> ((\<exists>r. js ''## Next'' = js ''##'' @ r)
            \<and> \<not> includes_str (([0x0A] @ js ''1. Do C'' @ [0x0A]) @ js ''#'') (js ''##''))"
    by (simp add: str_eval)
  from draft_extraction [OF 1 2] show ?thesis by simp
qed



lemma approved_world_facts:
  "calm (outcomes (approved_world []))"
  "list_ex (\<lambda>i. number i = 1) (issues (tracker (approved_world os)))"
  "issues (tracker (approved_world os)) = [example_issue
      (DRAFT_SECTION_HEADER @ [0x0A] @ js ''- Do A'' @ [0x0A] @ js ''- Do B'' @ [0x0A] @ js ''## Next'')]"
  by (simp_all add: approved_world_def example_world_def example_issue_def)



text \<open>
  C9, as amended. Whatever requests fail, the issues a run of the loop creates follow the
  order of the draft lines, and none of them has a title that, case-insensitively, equals
  or is contained in the title of an issue that was open when it was created, those created
  earlier in the same run included. And in a run where no retry is exhausted and the
  tracking issue is in the tracker: when a draft with a non-empty title that no open issue
  matches is reached, it is created, and a later draft of the same run whose non-empty title
  equals or is contained in the first's title is counted as existed and nothing is created
  for it, whatever drafts stand before, between and after them.
\<close>

theorem read_your_writes:
  assumes "draftLoop lc n parent ds st w = ((err, st'), w')"
  shows "(\<exists>new. issues (tracker w') = new @ issues (tracker w)
           \<and> subseq (map title (rev new)) (map draftTitleOf ds)
           \<and> (\<forall>xs b ys. new = xs @ b # ys \<longrightarrow>
                 \<not> (\<exists>a \<in> set (ys @ issues (tracker w)). state_open a
                        \<and> (lc (title a) = lc (title b)
                           \<or> includes_str (lc (title a)) (lc (title b))))))
    \<and> (\<forall>pre d1 mid d2 rest stA wA. ds = pre @ d1 # mid @ d2 # rest \<and> calm (outcomes w)
            \<and> list_ex (\<lambda>i. number i = n) (issues (tracker w))
            \<and> draftLoop lc n parent pre st w = ((None, stA), wA)
            \<and> draftTitleOf d1 \<noteq> [] \<and> draftTitleOf d2 \<noteq> []
            \<and> \<not> (\<exists>a \<in> set (issues (tracker wA)). state_open a
                     \<and> (lc (title a) = lc (draftTitleOf d1)
                        \<or> includes_str (lc (title a)) (lc (draftTitleOf d1))))
            \<and> (lc (draftTitleOf d1) = lc (draftTitleOf d2)
               \<or> includes_str (lc (draftTitleOf d1)) (lc (draftTitleOf d2)))
          \<longrightarrow> (\<exists>b w1 stM wM w2.
                  issues (tracker w1) = b # issues (tracker wA) \<and> title b = draftTitleOf d1
                \<and> draftLoop lc n parent mid (stA\<lparr>created := created stA + 1\<rparr>) w1 = ((None, stM), wM)
                \<and> tracker w2 = tracker wM
                \<and> draftLoop lc n parent rest (stM\<lparr>existed := existed stM + 1\<rparr>) w2 = ((err, st'), w')))"
proof -
  from draftLoop_created [OF assms]
  have A: "\<exists>new. issues (tracker w') = new @ issues (tracker w)
           \<and> subseq (map title (rev new)) (map draftTitleOf ds)
           \<and> (\<forall>xs b ys. new = xs @ b # ys \<longrightarrow>
                 \<not> (\<exists>a \<in> set (ys @ issues (tracker w)). state_open a
                        \<and> (lc (title a) = lc (title b)
                           \<or> includes_str (lc (title a)) (lc (title b)))))"
    unfolding issueExists_iff by blast
  have B: "\<exists>b w1 stM wM w2.
                  issues (tracker w1) = b # issues (tracker wA) \<and> title b = draftTitleOf d1
                \<and> draftLoop lc n parent mid (stA\<lparr>created := created stA + 1\<rparr>) w1 = ((None, stM), wM)
                \<and> tracker w2 = tracker wM
                \<and> draftLoop lc n parent rest (stM\<lparr>existed := existed stM + 1\<rparr>) w2 = ((err, st'), w')"
    if h: "ds = pre @ d1 # mid @ d2 # rest \<and> calm (outcomes w)
            \<and> list_ex (\<lambda>i. number i = n) (issues (tracker w))
            \<and> draftLoop lc n parent pre st w = ((None, stA), wA)
            \<and> draftTitleOf d1 \<noteq> [] \<and> draftTitleOf d2 \<noteq> []
            \<and> \<not> (\<exists>a \<in> set (issues (tracker wA)). state_open a
                     \<and> (lc (title a) = lc (draftTitleOf d1)
                        \<or> includes_str (lc (title a)) (lc (draftTitleOf d1))))
            \<and> (lc (draftTitleOf d1) = lc (draftTitleOf d2)
               \<or> includes_str (lc (draftTitleOf d1)) (lc (draftTitleOf d2)))"
    for pre d1 mid d2 rest stA wA
  proof -
    from h assms have run: "draftLoop lc n parent (pre @ d1 # mid @ d2 # rest) st w = ((err, st'), w')"
      by simp
    from h have before: "draftLoop lc n parent pre st w = ((None, stA), wA)" by blast
    from h have c: "calm (outcomes w)" and p: "list_ex (\<lambda>i. number i = n) (issues (tracker w))"
      and t: "draftTitleOf d1 \<noteq> []" "draftTitleOf d2 \<noteq> []"
      and fresh: "\<not> (\<exists>a \<in> set (issues (tracker wA)). state_open a
                     \<and> (lc (title a) = lc (draftTitleOf d1)
                        \<or> includes_str (lc (title a)) (lc (draftTitleOf d1))))"
      and dup: "lc (draftTitleOf d1) = lc (draftTitleOf d2)
               \<or> includes_str (lc (draftTitleOf d1)) (lc (draftTitleOf d2))"
      by blast+
    show ?thesis by (rule later_duplicate_existed_after [OF run c p before t fresh dup])
  qed
  from A B show ?thesis by blast
qed

theorem read_your_writes_witness:
  "fst (draftLoop toLowerCase_ascii 1 (example_issue []) [js ''- Do A'', js ''- do a'']
          \<lparr>processed = 2, created = 0, existed = 0\<rparr> (approved_world []))
     = (None, \<lparr>processed = 2, created = 1, existed = 1\<rparr>)"
proof -
  define r where "r = draftLoop toLowerCase_ascii 1 (example_issue []) [js ''- Do A'', js ''- do a'']
          \<lparr>processed = 2, created = 0, existed = 0\<rparr> (approved_world [])"
  have run: "draftLoop toLowerCase_ascii 1 (example_issue []) [js ''- Do A'', js ''- do a'']
          \<lparr>processed = 2, created = 0, existed = 0\<rparr> (approved_world [])
        = ((fst (fst r), snd (fst r)), snd r)"
    unfolding r_def by (simp only: prod.collapse)
  have t: "draftTitleOf (js ''- Do A'') = js ''Do A''" "draftTitleOf (js ''- do a'') = js ''do a''"
    by (simp_all add: draftTitleOf_def str_eval)
  have 0: "[js ''- Do A'', js ''- do a''] = [] @ js ''- Do A'' # [] @ js ''- do a'' # []" by simp
  have b: "draftLoop toLowerCase_ascii 1 (example_issue []) [] \<lparr>processed = 2, created = 0, existed = 0\<rparr>
             (approved_world [])
           = ((None, \<lparr>processed = 2, created = 0, existed = 0\<rparr>), approved_world [])" by simp
  have 1: "draftTitleOf (js ''- Do A'') \<noteq> []" "draftTitleOf (js ''- do a'') \<noteq> []"
    unfolding t by (simp_all add: js_def)
  have 2: "\<not> (\<exists>a \<in> set (issues (tracker (approved_world []))). state_open a
                     \<and> (toLowerCase_ascii (title a) = toLowerCase_ascii (draftTitleOf (js ''- Do A''))
                        \<or> includes_str (toLowerCase_ascii (title a)) (toLowerCase_ascii (draftTitleOf (js ''- Do A'')))))"
    unfolding t by (simp add: approved_world_facts(3) example_issue_def str_eval)
  have 3: "toLowerCase_ascii (draftTitleOf (js ''- Do A'')) = toLowerCase_ascii (draftTitleOf (js ''- do a''))"
    unfolding t by (simp add: str_eval)
  note th = read_your_writes [OF run, THEN conjunct2, rule_format,
      of "[]" "js ''- Do A''" "[]" "js ''- do a''" "[]"
         "\<lparr>processed = 2, created = 0, existed = 0\<rparr>" "approved_world []"]
  have "\<exists>b w1 stM wM w2.
          issues (tracker w1) = b # issues (tracker (approved_world []))
        \<and> title b = draftTitleOf (js ''- Do A'')
        \<and> draftLoop toLowerCase_ascii 1 (example_issue []) []
             (\<lparr>processed = 2, created = 0, existed = 0\<rparr>
                \<lparr>created := created \<lparr>processed = 2, created = 0, existed = 0\<rparr> + 1\<rparr>) w1
            = ((None, stM), wM)
        \<and> tracker w2 = tracker wM
        \<and> draftLoop toLowerCase_ascii 1 (example_issue []) [] (stM\<lparr>existed := existed stM + 1\<rparr>) w2
            = ((fst (fst r), snd (fst r)), snd r)"
    using 0 approved_world_facts(1,2) b 1 2 3 by (intro th conjI disjI1) (assumption+)
  then have "fst r = (None, \<lparr>processed = 2, created = 1, existed = 1\<rparr>)"
    by (cases r) (auto simp del: draftLoop.simps(2))
  then show ?thesis by (simp only: r_def)
qed

text \<open>
  The claim as stated covers titles related by containment in either direction. A later
  draft whose title contains the earlier one is created as well.
\<close>

theorem later_superstring_is_created:
  "includes_str (toLowerCase_ascii (js ''Do A again'')) (toLowerCase_ascii (js ''Do A''))
   \<and> fst (processDrafts toLowerCase_ascii example_config (Some 1)
            (drafts_world (js ''- Do A'' @ [0x0A] @ js ''- Do A again'') []))
       = Inr \<lparr>processed = 2, created = 2, existed = 0\<rparr>"
  by (simp add: drafts_world_def run_eval str_eval)


text \<open>
  A failure to create a sub-issue or to post its reference comment is caught inside the
  loop, and the loop goes on: where every request succeeds at once until the creation of the
  second of three sub-issues is rejected three times, the first and the third are created.
  And the loop is left with an error only by an exhausted fetch of the open issues: the last
  three attempts logged are then that fetch.
\<close>

lemma creation_failure_continues:
  "fst (draftLoop toLowerCase_ascii 1 (example_issue []) [js ''- Do A'', js ''- Do B'', js ''- Do C'']
          \<lparr>processed = 3, created = 0, existed = 0\<rparr>
          (approved_world [False, False, False, False, True, True, True]))
     = (None, \<lparr>processed = 3, created = 2, existed = 0\<rparr>)"
proof -
  let ?w = "approved_world [False, False, False, False, True, True, True]"
  have t: "draftTitleOf (js ''- Do A'') = js ''Do A''" "draftTitleOf (js ''- Do B'') = js ''Do B''"
    "draftTitleOf (js ''- Do C'') = js ''Do C''"
    by (simp_all add: draftTitleOf_def str_eval)
  have 0: "outcomes ?w = [False, False, False, False, True, True, True] @ []" "calm []"
    by (simp_all add: approved_world_def example_world_def)
  have 1: "draftTitleOf (js ''- Do A'') \<noteq> []" "draftTitleOf (js ''- Do B'') \<noteq> []"
    "draftTitleOf (js ''- Do C'') \<noteq> []"
    unfolding t by (simp_all add: js_def)
  have 2: "\<forall>t \<in> {draftTitleOf (js ''- Do A''), draftTitleOf (js ''- Do B''), draftTitleOf (js ''- Do C'')}.
                 \<not> (\<exists>a \<in> set (issues (tracker ?w)). state_open a
                        \<and> (toLowerCase_ascii (title a) = toLowerCase_ascii t
                           \<or> includes_str (toLowerCase_ascii (title a)) (toLowerCase_ascii t)))"
    unfolding t by (simp add: approved_world_facts(3) example_issue_def str_eval)
  have 3: "\<not> (toLowerCase_ascii (draftTitleOf (js ''- Do A'')) = toLowerCase_ascii (draftTitleOf (js ''- Do B''))
                 \<or> includes_str (toLowerCase_ascii (draftTitleOf (js ''- Do A'')))
                      (toLowerCase_ascii (draftTitleOf (js ''- Do B''))))"
    "\<not> (toLowerCase_ascii (draftTitleOf (js ''- Do A'')) = toLowerCase_ascii (draftTitleOf (js ''- Do C''))
                 \<or> includes_str (toLowerCase_ascii (draftTitleOf (js ''- Do A'')))
                      (toLowerCase_ascii (draftTitleOf (js ''- Do C''))))"
    unfolding t by (simp_all add: str_eval)
  from three_drafts_second_creation_fails [OF 0 approved_world_facts(2) 1 2 3,
      of "example_issue []" "\<lparr>processed = 3, created = 0, existed = 0\<rparr>"]
  show ?thesis by (auto simp del: draftLoop.simps)
qed

text \<open>
  C5. The claim fails in the code for the one request of an item that stands outside the
  inner \<^verbatim>\<open>try\<close>, the fetch of the open issues made before each draft is compared. On an
  approved issue with the three drafts \<^verbatim>\<open>Do A\<close>, \<^verbatim>\<open>Do B\<close>, \<^verbatim>\<open>Do C\<close>, where every request
  succeeds at once until that fetch is rejected three times for the second draft, the run
  creates the first sub-issue only: the loop ends, the third draft is never handled (no
  request is left unanswered, no issue \<^verbatim>\<open>Do C\<close> exists), and the statistics say 3
  processed, 1 created, 0 existed.
\<close>

theorem fetch_failure_ends_the_loop:
  "(case processDrafts toLowerCase_ascii example_config (Some 1)
          (drafts_world (js ''- Do A'' @ [0x0A] @ js ''- Do B'' @ [0x0A] @ js ''- Do C'')
             [False, False, False, False, False, False, True, True, True]) of
      (r, w') \<Rightarrow> r = Inr \<lparr>processed = 3, created = 1, existed = 0\<rparr>
                \<and> map title (issues (tracker w')) = [js ''Do A'', js ''Task Status 2025-01-02'']
                \<and> outcomes w' = [])"
  by (simp add: drafts_world_def run_eval str_eval)

theorem fetch_failure_ends_the_loop_witness:
  "fst (processDrafts toLowerCase_ascii example_config (Some 1)
          (drafts_world (js ''- Do A'' @ [0x0A] @ js ''- Do B'' @ [0x0A] @ js ''- Do C'')
             [False, False, False, False, False, False, True, True, True]))
     = Inr \<lparr>processed = 3, created = 1, existed = 0\<rparr>
   \<and> js ''Do C'' \<notin> set (map title (issues (tracker (snd
         (processDrafts toLowerCase_ascii example_config (Some 1)
          (drafts_world (js ''- Do A'' @ [0x0A] @ js ''- Do B'' @ [0x0A] @ js ''- Do C'')
             [False, False, False, False, False, False, True, True, True]))))))"
proof -
  obtain r w' where e: "processDrafts toLowerCase_ascii example_config (Some 1)
          (drafts_world (js ''- Do A'' @ [0x0A] @ js ''- Do B'' @ [0x0A] @ js ''- Do C'')
             [False, False, False, False, False, False, True, True, True]) = (r, w')"
    by (cases "processDrafts toLowerCase_ascii example_config (Some 1)
          (drafts_world (js ''- Do A'' @ [0x0A] @ js ''- Do B'' @ [0x0A] @ js ''- Do C'')
             [False, False, False, False, False, False, True, True, True])")
  from fetch_failure_ends_the_loop have "r = Inr \<lparr>processed = 3, created = 1, existed = 0\<rparr>"
    "map title (issues (tracker w')) = [js ''Do A'', js ''Task Status 2025-01-02'']"
    unfolding e by simp_all
  moreover have "js ''Do C'' \<notin> set [js ''Do A'', js ''Task Status 2025-01-02'']"
    by (simp add: js_def)
  ultimately show ?thesis unfolding e by simp
qed


text \<open>
  C3, as amended. On an issue whose drafts region holds at least one draft line and not the
  placeholder text, with no confirmation comment yet and no retry exhausted, a configured
  run returns the number of draft lines as processed and nothing created or existed, and
  changes the tracker by exactly one new comment on the issue, whose body lists every draft
  line after its index counted from 1. When that comment is authored by a \<^verbatim>\<open>Bot\<close> and
  carries no \<^verbatim>\<open>+1\<close>, a second run returns the same statistics and leaves the tracker as the
  first run left it.
\<close>

theorem two_phase_gate:
  assumes "truthy (TARGET_REPO_OWNER cfg)" and "truthy (TARGET_REPO_NAME cfg)"
    and "truthy (GITHUB_TOKEN cfg)" and "n \<noteq> 0"
    and p: "find (\<lambda>i. number i = n) (issues (tracker w)) = Some parent"
    and r: "draftsContentOf (case body parent of None \<Rightarrow> [] | Some b \<Rightarrow> b) = Some dc"
    and np: "\<not> includes_str dc PLACEHOLDER"
    and l: "draftLinesOf dc \<noteq> []"
    and nc: "\<forall>x \<in> set (comments (tracker w)). comment_issue x = n \<longrightarrow>
               \<not> (includes_str (comment_body x) CONFIRMATION_MARKER \<and> user_type x = js ''Bot'')"
    and c: "calm (outcomes w)"
  shows "\<exists>w1. processDrafts lc cfg (Some n) w
               = (Inr \<lparr>processed = length (draftLinesOf dc), created = 0, existed = 0\<rparr>, w1)
     \<and> tracker w1 = (tracker w)\<lparr>comments := comments (tracker w)
                        @ [posted_comment (tracker w) n (confirmationBody (draftLinesOf dc))]\<rparr>
     \<and> (\<forall>i < length (draftLinesOf dc).
           includes_str (confirmationBody (draftLinesOf dc))
             (decimal (i + 1) @ js ''. '' @ draftLinesOf dc ! i))
     \<and> (actor_type (tracker w) = js ''Bot''
         \<and> \<not> (\<exists>x \<in> set (reactions (tracker w)).
                  reaction_comment x = fresh_comment_id (tracker w) \<and> content x = js ''+1'')
        \<longrightarrow> (\<exists>w2. processDrafts lc cfg (Some n) w1
                     = (Inr \<lparr>processed = length (draftLinesOf dc), created = 0, existed = 0\<rparr>, w2)
                  \<and> tracker w2 = tracker w1))"
proof -
  let ?z = "\<lparr>processed = 0, created = 0, existed = 0\<rparr>"
  let ?N = "length (draftLinesOf dc)"
  let ?pc = "posted_comment (tracker w) n (confirmationBody (draftLinesOf dc))"
  let ?t1 = "(tracker w)\<lparr>comments := comments (tracker w) @ [?pc]\<rparr>"
  note cfg = assms(1-4)
  from nc have none: "find isConfirmation (filter (\<lambda>c. comment_issue c = n) (comments (tracker w))) = None"
    by (intro find_none) (auto simp: isConfirmation_def)
  from processDrafts_try_calm_propose [OF c p r np l none, of lc ?z]
  obtain w1 where w1: "processDrafts_try lc n ?z w = ((None, ?z\<lparr>processed := ?N\<rparr>), w1)"
    "tracker w1 = ?t1" "calm (outcomes w1)" by blast
  have run1: "processDrafts lc cfg (Some n) w = (Inr \<lparr>processed = ?N, created = 0, existed = 0\<rparr>, w1)"
    using w1(1) by (simp add: processDrafts_configured [OF cfg])
  have items: "\<forall>i < ?N. includes_str (confirmationBody (draftLinesOf dc))
             (decimal (i + 1) @ js ''. '' @ draftLinesOf dc ! i)"
    using confirmationBody_lists_items by blast
  have second: "\<exists>w2. processDrafts lc cfg (Some n) w1
                     = (Inr \<lparr>processed = ?N, created = 0, existed = 0\<rparr>, w2)
                  \<and> tracker w2 = tracker w1"
    if h: "actor_type (tracker w) = js ''Bot''
         \<and> \<not> (\<exists>x \<in> set (reactions (tracker w)).
                  reaction_comment x = fresh_comment_id (tracker w) \<and> content x = js ''+1'')"
  proof -
    have p1: "find (\<lambda>i. number i = n) (issues (tracker w1)) = Some parent" using p w1(2) by simp
    from h have ic: "isConfirmation ?pc"
      by (simp add: isConfirmation_def posted_comment_def confirmationBody_marker)
    have "filter (\<lambda>c. comment_issue c = n) (comments (tracker w1))
            = filter (\<lambda>c. comment_issue c = n) (comments (tracker w)) @ [?pc]"
      by (simp add: w1(2) posted_comment_def)
    with find_append_new [OF none ic]
    have cc: "find isConfirmation (filter (\<lambda>c. comment_issue c = n) (comments (tracker w1))) = Some ?pc"
      by simp
    from h have nt: "\<not> hasThumbsUp (filter (\<lambda>r. reaction_comment r = comment_id ?pc) (reactions (tracker w1)))"
      by (auto simp: hasThumbsUp_def list_ex_iff w1(2) posted_comment_def)
    from processDrafts_try_calm_awaiting [OF w1(3) p1 r np l cc nt, of lc ?z]
    obtain w2 where "processDrafts_try lc n ?z w1 = ((None, ?z\<lparr>processed := ?N\<rparr>), w2)"
      "tracker w2 = tracker w1" by blast
    then show ?thesis by (simp add: processDrafts_configured [OF cfg])
  qed
  from run1 w1(2) items second show ?thesis by blast
qed

theorem two_phase_gate_witness:
  "\<exists>w1. processDrafts toLowerCase_ascii example_config (Some 1) proposal_world
          = (Inr \<lparr>processed = 2, created = 0, existed = 0\<rparr>, w1)
      \<and> length (comments (tracker w1)) = 1 \<and> issues (tracker w1) = issues (tracker proposal_world)"
proof -
  let ?B = "DRAFT_SECTION_HEADER @ [0x0A] @ js ''- Do A'' @ [0x0A] @ js ''- Do B'' @ [0x0A] @ js ''## Next''"
  let ?R = "js ''- Do A'' @ [0x0A] @ js ''- Do B''"
  have p: "find (\<lambda>i. number i = 1) (issues (tracker proposal_world)) = Some (example_issue ?B)"
    by (simp add: proposal_world_def example_world_def example_issue_def)
  have r: "draftsContentOf (case body (example_issue ?B) of None \<Rightarrow> [] | Some b \<Rightarrow> b) = Some ?R"
    by (simp add: example_issue_def draftsContentOf_def str_eval)
  have np: "\<not> includes_str ?R PLACEHOLDER" by (simp add: str_eval)
  have dl: "draftLinesOf ?R = [js ''- Do A'', js ''- Do B'']" by (simp add: draftLinesOf_def str_eval)
  then have l: "draftLinesOf ?R \<noteq> []" by simp
  have nc: "\<forall>x \<in> set (comments (tracker proposal_world)). comment_issue x = 1 \<longrightarrow>
               \<not> (includes_str (comment_body x) CONFIRMATION_MARKER \<and> user_type x = js ''Bot'')"
    by (simp add: proposal_world_def example_world_def)
  have c: "calm (outcomes proposal_world)" by (simp add: proposal_world_def example_world_def)
  have one: "(1::nat) \<noteq> 0" by simp
  from two_phase_gate [OF example_config_ok one p r np l nc c]
  obtain w1 where "processDrafts toLowerCase_ascii example_config (Some 1) proposal_world
               = (Inr \<lparr>processed = length (draftLinesOf ?R), created = 0, existed = 0\<rparr>, w1)"
    "tracker w1 = (tracker proposal_world)\<lparr>comments := comments (tracker proposal_world)
                        @ [posted_comment (tracker proposal_world) 1 (confirmationBody (draftLinesOf ?R))]\<rparr>"
    by blast
  then show ?thesis unfolding dl by (intro exI [of _ w1]) (simp add: proposal_world_def example_world_def)
qed

text \<open>
  The claim as stated covers a region in which the placeholder comment of the template
  still stands above the draft lines; there the run returns early and posts nothing.
\<close>

theorem placeholder_hides_drafts:
  "draftsContentOf (DRAFT_SECTION_HEADER @ [0x0A] @ template_comment @ [0x0A] @ js ''- Do A'')
     = Some (template_comment @ [0x0A] @ js ''- Do A'')
   \<and> draftLinesOf (template_comment @ [0x0A] @ js ''- Do A'') = [js ''- Do A'']
   \<and> comments (tracker placeholder_world) = []
   \<and> (case processDrafts toLowerCase_ascii example_config (Some 1) placeholder_world of
         (r, w') \<Rightarrow> r = Inr \<lparr>processed = 0, created = 0, existed = 0\<rparr>
                   \<and> comments (tracker w') = [])"
  by (simp add: placeholder_world_def template_comment_def run_eval str_eval)

subsection \<open>findOrCreateDailyIssue\<close>

lemma findOrCreateDailyIssue_found:
  assumes f: "find (\<lambda>i. title i = DAILY_ISSUE_TITLE_PREFIX @ js '' '' @ getCurrentDateUTC w)
               (filter (\<lambda>i. state_open i \<and> DAILY_ISSUE_LABEL \<in> set (labels i)) (issues (tracker w)))
             = Some x"
    and run: "findOrCreateDailyIssue cfg w = (r, w')"
  shows "tracker w' = tracker w \<and> clock w' = clock w
         \<and> ((\<exists>e. r = Inl e) \<or> r = Inr (number x, html_url x))"
proof (cases "\<not> truthy (TARGET_REPO_OWNER cfg) \<or> \<not> truthy (TARGET_REPO_NAME cfg) \<or> \<not> truthy (GITHUB_TOKEN cfg)")
  case True
  with run show ?thesis
    by (auto simp: findOrCreateDailyIssue_def initializeOctokit_def split: if_splits)
next
  case False
  obtain r1 w1 where l: "retry (request (issues_listForRepo (Some DAILY_ISSUE_LABEL))) 3 1000
                           ''listIssuesForRepo'' w = (r1, w1)"
    by (cases "retry (request (issues_listForRepo (Some DAILY_ISSUE_LABEL))) 3 1000 ''listIssuesForRepo'' w")
  from listForRepo_cases [OF l]
  have t: "tracker w1 = tracker w" "clock w1 = clock w"
    and c: "(\<exists>e. r1 = Inl e) \<or> r1 = Inr (filter (\<lambda>i. state_open i \<and> DAILY_ISSUE_LABEL \<in> set (labels i))
                                          (issues (tracker w)))"
    by auto
  from c show ?thesis
  proof
    assume "\<exists>e. r1 = Inl e"
    with False run l t show ?thesis
      by (auto simp: findOrCreateDailyIssue_def initializeOctokit_def Let_def)
  next
    assume "r1 = Inr (filter (\<lambda>i. state_open i \<and> DAILY_ISSUE_LABEL \<in> set (labels i)) (issues (tracker w)))"
    with False run l t f show ?thesis
      by (auto simp: findOrCreateDailyIssue_def initializeOctokit_def Let_def)
  qed
qed

lemma findOrCreateDailyIssue_found_calm:
  assumes f: "find (\<lambda>i. title i = DAILY_ISSUE_TITLE_PREFIX @ js '' '' @ getCurrentDateUTC w)
               (filter (\<lambda>i. state_open i \<and> DAILY_ISSUE_LABEL \<in> set (labels i)) (issues (tracker w)))
             = Some x"
    and cfg: "truthy (TARGET_REPO_OWNER cfg)" "truthy (TARGET_REPO_NAME cfg)" "truthy (GITHUB_TOKEN cfg)"
    and c: "calm (outcomes w)"
  shows "\<exists>w'. findOrCreateDailyIssue cfg w = (Inr (number x, html_url x), w') \<and> calm (outcomes w')"
proof -
  have "issues_listForRepo (Some DAILY_ISSUE_LABEL) (tracker w)
          = Inr (filter (\<lambda>i. state_open i \<and> DAILY_ISSUE_LABEL \<in> set (labels i)) (issues (tracker w)), tracker w)"
    by (simp add: issues_listForRepo_def)
  from retry_calm [where call = "issues_listForRepo (Some DAILY_ISSUE_LABEL)" and d = 1000
                     and name = "''listIssuesForRepo''", OF c this]
  obtain w1 where "retry (request (issues_listForRepo (Some DAILY_ISSUE_LABEL))) 3 1000 ''listIssuesForRepo'' w
     = (Inr (filter (\<lambda>i. state_open i \<and> DAILY_ISSUE_LABEL \<in> set (labels i)) (issues (tracker w))), w1)"
    "calm (outcomes w1)" by blast
  with cfg f show ?thesis
    by (simp add: findOrCreateDailyIssue_def initializeOctokit_def Let_def)
qed

lemma find_exists: "\<exists>x \<in> set xs. P x \<Longrightarrow> \<exists>y. find P xs = Some y"
  by (induction xs) auto

lemma example_date: "getCurrentDateUTC (example_world b cs rs os) = js ''2025-01-02''"
  by (simp add: getCurrentDateUTC_def example_world_def js_def)

text \<open>
  C6. When an open issue with the tracking label and the title of the day exists,
  \<open>findOrCreateDailyIssue\<close> leaves the tracker as it is, whatever requests fail; a result it
  returns is the number and URL of such an issue; two calls in a row return the same; and
  with the configuration set and no retry exhausted both calls do return it.
\<close>

theorem idempotent_lookup:
  assumes ex: "\<exists>x \<in> set (issues (tracker w)). state_open x \<and> DAILY_ISSUE_LABEL \<in> set (labels x)
                 \<and> title x = DAILY_ISSUE_TITLE_PREFIX @ js '' '' @ getCurrentDateUTC w"
    and run1: "findOrCreateDailyIssue cfg w = (r1, w1)"
    and run2: "findOrCreateDailyIssue cfg w1 = (r2, w2)"
  shows "tracker w1 = tracker w \<and> tracker w2 = tracker w
     \<and> (\<forall>a. r1 = Inr a \<longrightarrow>
           (\<exists>x \<in> set (issues (tracker w)). state_open x \<and> DAILY_ISSUE_LABEL \<in> set (labels x)
                 \<and> title x = DAILY_ISSUE_TITLE_PREFIX @ js '' '' @ getCurrentDateUTC w
                 \<and> a = (number x, html_url x)))
     \<and> (\<forall>a b. r1 = Inr a \<and> r2 = Inr b \<longrightarrow> a = b)
     \<and> (truthy (TARGET_REPO_OWNER cfg) \<and> truthy (TARGET_REPO_NAME cfg) \<and> truthy (GITHUB_TOKEN cfg)
          \<and> calm (outcomes w) \<longrightarrow> (\<exists>a. r1 = Inr a \<and> r2 = Inr a))"
proof -
  let ?L = "\<lambda>w. filter (\<lambda>i. state_open i \<and> DAILY_ISSUE_LABEL \<in> set (labels i)) (issues (tracker w))"
  let ?T = "\<lambda>w. DAILY_ISSUE_TITLE_PREFIX @ js '' '' @ getCurrentDateUTC w"
  from ex have "\<exists>x \<in> set (?L w). title x = ?T w" by auto
  from find_exists [OF this] obtain x where x: "find (\<lambda>i. title i = ?T w) (?L w) = Some x" by blast
  from find_in_set [OF x] have xp: "x \<in> set (issues (tracker w))" "state_open x"
    "DAILY_ISSUE_LABEL \<in> set (labels x)" "title x = ?T w" by auto
  from findOrCreateDailyIssue_found [OF x run1]
  have 1: "tracker w1 = tracker w" "clock w1 = clock w" "(\<exists>e. r1 = Inl e) \<or> r1 = Inr (number x, html_url x)"
    by auto
  from 1 x have x1: "find (\<lambda>i. title i = ?T w1) (?L w1) = Some x" by (simp add: getCurrentDateUTC_def)
  from findOrCreateDailyIssue_found [OF x1 run2]
  have 2: "tracker w2 = tracker w1" "(\<exists>e. r2 = Inl e) \<or> r2 = Inr (number x, html_url x)"
    by auto
  have 3: "\<exists>a. r1 = Inr a \<and> r2 = Inr a"
    if h: "truthy (TARGET_REPO_OWNER cfg) \<and> truthy (TARGET_REPO_NAME cfg) \<and> truthy (GITHUB_TOKEN cfg)
          \<and> calm (outcomes w)"
  proof -
    from h have cfg: "truthy (TARGET_REPO_OWNER cfg)" "truthy (TARGET_REPO_NAME cfg)" "truthy (GITHUB_TOKEN cfg)"
      and c: "calm (outcomes w)" by blast+
    from findOrCreateDailyIssue_found_calm [OF x cfg c] run1
    have a: "r1 = Inr (number x, html_url x)" "calm (outcomes w1)" by auto
    from findOrCreateDailyIssue_found_calm [OF x1 cfg a(2)] run2
    have "r2 = Inr (number x, html_url x)" by auto
    with a show ?thesis by blast
  qed
  from 1 2 3 xp show ?thesis by auto
qed

theorem idempotent_lookup_witness:
  "\<exists>a. fst (findOrCreateDailyIssue example_config (example_world [] [] [] [])) = Inr a
       \<and> fst (findOrCreateDailyIssue example_config
                 (snd (findOrCreateDailyIssue example_config (example_world [] [] [] [])))) = Inr a"
proof -
  let ?w = "example_world [] [] [] []"
  let ?r = "findOrCreateDailyIssue example_config ?w"
  let ?r2 = "findOrCreateDailyIssue example_config (snd ?r)"
  have ex: "\<exists>x \<in> set (issues (tracker ?w)). state_open x \<and> DAILY_ISSUE_LABEL \<in> set (labels x)
                 \<and> title x = DAILY_ISSUE_TITLE_PREFIX @ js '' '' @ getCurrentDateUTC ?w"
    unfolding example_date
    by (simp add: example_world_def example_issue_def DAILY_ISSUE_TITLE_PREFIX_def js_def)
  have c: "calm (outcomes ?w)" by (simp add: example_world_def)
  have r1: "?r = (fst ?r, snd ?r)" and r2: "?r2 = (fst ?r2, snd ?r2)" by simp_all
  from idempotent_lookup [OF ex r1 r2] example_config_ok c show ?thesis by blast
qed

subsection \<open>main\<close>

lemma generateReminder_frame:
  assumes "generateReminder cfg repoData w = (r, w')"
  shows "tracker w' = tracker w \<and> outputs w' = outputs w \<and> clock w' = clock w
         \<and> (\<exists>k \<le> 3. attempts w' = attempts w @ replicate k ''openaiChatCompletion'')"
proof (cases "truthy (OPENAI_API_KEY cfg)")
  case False
  with assms have "w' = w" by (simp add: generateReminder_def initializeOpenAI_def)
  then show ?thesis by simp
next
  case True
  obtain r1 w1 where c: "retry chat_completion 3 2000 ''openaiChatCompletion'' w = (r1, w1)"
    by (cases "retry chat_completion 3 2000 ''openaiChatCompletion'' w")
  with True assms have w': "w' = w1"
    by (auto simp: generateReminder_def initializeOpenAI_def split: sum.splits generation.splits)
  from c have "tracker w1 = tracker w \<and> outputs w1 = outputs w \<and> clock w1 = clock w
         \<and> (attempts w1 = attempts w @ replicate 1 ''openaiChatCompletion''
            \<or> attempts w1 = attempts w @ replicate 2 ''openaiChatCompletion''
            \<or> attempts w1 = attempts w @ replicate 3 ''openaiChatCompletion'')"
    by (auto simp: retry_def numeral_3_eq_3 numeral_2_eq_2 chat_completion_def split: list.splits bool.splits)
  then have f: "tracker w1 = tracker w" "outputs w1 = outputs w" "clock w1 = clock w"
    and d: "attempts w1 = attempts w @ replicate 1 ''openaiChatCompletion''
            \<or> attempts w1 = attempts w @ replicate 2 ''openaiChatCompletion''
            \<or> attempts w1 = attempts w @ replicate 3 ''openaiChatCompletion''"
    by blast+
  from d have "\<exists>k \<le> 3. attempts w1 = attempts w @ replicate k ''openaiChatCompletion''"
  proof (elim disjE)
    assume "attempts w1 = attempts w @ replicate 1 ''openaiChatCompletion''"
    then show ?thesis by (intro exI [of _ 1]) simp
  next
    assume "attempts w1 = attempts w @ replicate 2 ''openaiChatCompletion''"
    then show ?thesis by (intro exI [of _ 2]) simp
  next
    assume "attempts w1 = attempts w @ replicate 3 ''openaiChatCompletion''"
    then show ?thesis by (intro exI [of _ 3]) simp
  qed
  with f have "tracker w1 = tracker w \<and> outputs w1 = outputs w \<and> clock w1 = clock w
         \<and> (\<exists>k \<le> 3. attempts w1 = attempts w @ replicate k ''openaiChatCompletion'')"
    by blast
  with w' show ?thesis by simp
qed

lemmas main_eval = main_def main_try_def findOrCreateDailyIssue_def collectRepoData_def
  generateReminder_def chat_completion_def initializeOpenAI_def generationFailed_def setOutput_def
  DAILY_ISSUE_LABEL_def DAILY_ISSUE_TITLE_PREFIX_def pulls_list_def

text \<open>
  C1, as amended. When the narrative generator reports a failure, \<open>main\<close> sets the four
  outputs and returns: after the generator's own attempts no request is made, so no comment
  is posted and the drafts are not processed.
\<close>

theorem generation_failure_ends_the_run:
  assumes "findOrCreateDailyIssue cfg w = (Inr dailyIssue, w1)"
    and "collectRepoData cfg w1 = (Inr repoData, w2)"
    and "generateReminder cfg repoData w2 = (Inr None, w3)"
  shows "main lc cfg w = (Returned, generationFailed (snd dailyIssue) w3)
     \<and> tracker (snd (main lc cfg w)) = tracker w2
     \<and> (\<exists>k \<le> 3. attempts (snd (main lc cfg w)) = attempts w2 @ replicate k ''openaiChatCompletion'')
     \<and> outputs (snd (main lc cfg w)) = outputs w2 @
          [(''reminder'', Str (js ''Generation failed'')),
           (''action_suggestions'', Str (js ''Generation failed'')),
           (''issue_url'', Str (snd dailyIssue)),
           (''sub_issues_processed'', Str (js ''0''))]"
proof -
  have m: "main lc cfg w = (Returned, generationFailed (snd dailyIssue) w3)"
    using assms by (simp add: main_def main_try_def)
  from generateReminder_frame [OF assms(3)] m show ?thesis
    by (simp add: generationFailed_def setOutput_def)
qed

theorem generation_failure_ends_the_run_witness:
  "fst (main toLowerCase_ascii example_config (example_world [] [] [] [])) = Returned
   \<and> tracker (snd (main toLowerCase_ascii example_config (example_world [] [] [] []))) = tracker (example_world [] [] [] [])"
proof -
  define w1 where "w1 = snd (findOrCreateDailyIssue example_config (example_world [] [] [] []))"
  define rd where "rd = projr (fst (collectRepoData example_config w1))"
  define w2 where "w2 = snd (collectRepoData example_config w1)"
  define w3 where "w3 = snd (generateReminder example_config rd w2)"
  have 1: "findOrCreateDailyIssue example_config (example_world [] [] [] []) = (Inr (1, js ''/issues/1''), w1)"
    unfolding w1_def by (simp add: main_eval run_eval js_def)
  have 2: "collectRepoData example_config w1 = (Inr rd, w2) \<and> tracker w2 = tracker (example_world [] [] [] [])"
    unfolding rd_def w2_def w1_def by (simp add: main_eval run_eval js_def)
  have 3: "generateReminder example_config rd w2 = (Inr None, w3)"
    unfolding w3_def rd_def w2_def w1_def by (simp add: main_eval run_eval js_def)
  note th = generation_failure_ends_the_run [OF 1 2 [THEN conjunct1] 3]
  have a: "fst (main toLowerCase_ascii example_config (example_world [] [] [] [])) = Returned"
    by (simp only: th [THEN conjunct1] fst_conv)
  have b: "tracker (snd (main toLowerCase_ascii example_config (example_world [] [] [] []))) = tracker (example_world [] [] [] [])"
    by (rule trans [OF th [THEN conjunct2, THEN conjunct1] 2 [THEN conjunct2]])
  from a b show ?thesis by (rule conjI)
qed

text \<open>
  The claim as stated has the drafts processed after a failed generation. On a tracker whose
  daily issue holds two approved drafts the run ends without a single request of
  \<open>processDrafts\<close>.
\<close>

theorem generation_failure_skips_drafts:
  "(case main toLowerCase_ascii example_config (approved_world []) of
      (c, w') \<Rightarrow> c = Returned
         \<and> attempts w' = [''listIssuesForRepo'', ''listIssuesForRepo'', ''listPulls'', ''openaiChatCompletion'']
         \<and> tracker w' = tracker (approved_world [])
         \<and> outputs w' = [(''reminder'', Str (js ''Generation failed'')),
                          (''action_suggestions'', Str (js ''Generation failed'')),
                          (''issue_url'', Str (js ''/issues/1'')),
                          (''sub_issues_processed'', Str (js ''0''))])
   \<and> generated (approved_world []) = InvalidJson"
  by (simp add: approved_world_def main_eval run_eval js_def)

end
